theory Spec2Isabelle
  imports Main "HOL-Library.Word" "HOL-Library.Sublist"
begin

section \<open>JavaScript strings and the built-ins used by \<open>baggage.ts\<close>\<close>

text \<open>
  A JavaScript string is a sequence of UTF-16 code units; \<open>.length\<close> counts code units.
  String literals of the source are written \<open>js ''...''\<close>.
\<close>

type_synonym jschar = "16 word"
type_synonym jsstring = "jschar list"

definition js :: "string \<Rightarrow> jsstring" where
  "js s = map of_char s"

text \<open>The only error the code can raise: \<open>URIError\<close>, thrown by the URI built-ins.\<close>

datatype error = URIError

text \<open>
  A value that may be \<open>undefined\<close> (an array element past the end, a missing property) is
  an \<open>option\<close>; \<open>to_str\<close> is the \<open>ToString\<close> coercion the built-ins apply to their argument.
\<close>

definition to_str :: "jsstring option \<Rightarrow> jsstring" where
  "to_str v = (case v of None \<Rightarrow> js ''undefined'' | Some s \<Rightarrow> s)"

fun nth_js :: "'a list \<Rightarrow> nat \<Rightarrow> 'a option" where
  "nth_js [] i = None"
| "nth_js (x # xs) 0 = Some x"
| "nth_js (x # xs) (Suc i) = nth_js xs i"

text \<open>
  \<open>String.prototype.split(sep)\<close> for a one-character separator and no limit: every
  occurrence of the separator cuts; the result is never empty (\<open>''.split(',')\<close> is \<open>['']\<close>).
\<close>

fun split_js :: "jschar \<Rightarrow> jsstring \<Rightarrow> jsstring list" where
  "split_js sep [] = [[]]"
| "split_js sep (c # cs) =
     (if c = sep then [] # split_js sep cs
      else (case split_js sep cs of [] \<Rightarrow> [[c]] | x # xs \<Rightarrow> (c # x) # xs))"

definition comma :: jschar where "comma = 0x2C"
definition equals :: jschar where "equals = 0x3D"
definition dash :: jschar where "dash = 0x2D"
definition percent :: jschar where "percent = 0x25"

subsection \<open>\<open>encodeURIComponent\<close>\<close>

text \<open>
  ECMAScript \<open>Encode(string, unescapedSet)\<close> with the unescaped set of
  \<open>encodeURIComponent\<close>: letters, digits and \<open>- _ . ! ~ * ' ( )\<close>. Any other code point
  is written as the \<open>%XX\<close> escapes (upper-case hex) of its UTF-8 octets; an unpaired
  surrogate raises \<open>URIError\<close>.
\<close>

definition unescaped :: "jschar \<Rightarrow> bool" where
  "unescaped c =
     (let n = unat c in
        (65 \<le> n \<and> n \<le> 90) \<or> (97 \<le> n \<and> n \<le> 122) \<or> (48 \<le> n \<and> n \<le> 57)
        \<or> n = 45 \<or> n = 95 \<or> n = 46 \<or> n = 33 \<or> n = 126 \<or> n = 42 \<or> n = 39 \<or> n = 40 \<or> n = 41)"

definition is_lead :: "jschar \<Rightarrow> bool" where
  "is_lead c = (0xD800 \<le> unat c \<and> unat c \<le> 0xDBFF)"

definition is_trail :: "jschar \<Rightarrow> bool" where
  "is_trail c = (0xDC00 \<le> unat c \<and> unat c \<le> 0xDFFF)"

definition surrogate_pair :: "jschar \<Rightarrow> jschar \<Rightarrow> nat" where
  "surrogate_pair c d = (unat c - 0xD800) * 0x400 + (unat d - 0xDC00) + 0x10000"

definition utf8_octets :: "nat \<Rightarrow> nat list" where
  "utf8_octets cp =
     (if cp < 0x80 then [cp]
      else if cp < 0x800 then [0xC0 + cp div 64, 0x80 + cp mod 64]
      else if cp < 0x10000 then [0xE0 + cp div 4096, 0x80 + (cp div 64) mod 64, 0x80 + cp mod 64]
      else [0xF0 + cp div 262144, 0x80 + (cp div 4096) mod 64, 0x80 + (cp div 64) mod 64,
            0x80 + cp mod 64])"

definition hexdigit :: "nat \<Rightarrow> jschar" where
  "hexdigit n = (if n < 10 then of_nat (48 + n) else of_nat (55 + n))"

definition escape_octet :: "nat \<Rightarrow> jsstring" where
  "escape_octet b = [percent, hexdigit (b div 16), hexdigit (b mod 16)]"

definition escape_octets :: "nat list \<Rightarrow> jsstring" where
  "escape_octets bs = concat (map escape_octet bs)"

fun encodeURIComponent :: "jsstring \<Rightarrow> error + jsstring" where
  "encodeURIComponent [] = Inr []"
| "encodeURIComponent (c # cs) =
     (if unescaped c then
        (case encodeURIComponent cs of Inl e \<Rightarrow> Inl e | Inr r \<Rightarrow> Inr (c # r))
      else if is_lead c then
        (case cs of
           [] \<Rightarrow> Inl URIError
         | d # ds \<Rightarrow>
             if is_trail d then
               (case encodeURIComponent ds of
                  Inl e \<Rightarrow> Inl e
                | Inr r \<Rightarrow> Inr (escape_octets (utf8_octets (surrogate_pair c d)) @ r))
             else Inl URIError)
      else if is_trail c then Inl URIError
      else
        (case encodeURIComponent cs of
           Inl e \<Rightarrow> Inl e
         | Inr r \<Rightarrow> Inr (escape_octets (utf8_octets (unat c)) @ r)))"

subsection \<open>\<open>decodeURIComponent\<close>\<close>

text \<open>
  ECMAScript \<open>Decode(string, reservedSet)\<close> with the empty reserved set. A \<open>%\<close> must be
  followed by two hex digits; an octet below \<open>0x80\<close> is that character; a lead octet
  announcing \<open>n\<close> octets (\<open>n\<close> from 2 to 4) must be followed by \<open>n - 1\<close> further escapes
  that together form well-formed UTF-8, and yields the UTF-16 code units of the code point.
  Everything else raises \<open>URIError\<close>.
\<close>

definition hexval :: "jschar \<Rightarrow> nat option" where
  "hexval c =
     (let n = unat c in
        if 48 \<le> n \<and> n \<le> 57 then Some (n - 48)
        else if 65 \<le> n \<and> n \<le> 70 then Some (n - 55)
        else if 97 \<le> n \<and> n \<le> 102 then Some (n - 87)
        else None)"

fun escaped_octet :: "jsstring \<Rightarrow> (nat \<times> jsstring) option" where
  "escaped_octet (p # h # l # rest) =
     (if p = percent then
        (case hexval h of
           None \<Rightarrow> None
         | Some a \<Rightarrow> (case hexval l of None \<Rightarrow> None | Some b \<Rightarrow> Some (16 * a + b, rest)))
      else None)"
| "escaped_octet _ = None"

fun escaped_octets :: "nat \<Rightarrow> jsstring \<Rightarrow> (nat list \<times> jsstring) option" where
  "escaped_octets 0 s = Some ([], s)"
| "escaped_octets (Suc n) s =
     (case escaped_octet s of
        None \<Rightarrow> None
      | Some (b, r) \<Rightarrow>
          (case escaped_octets n r of None \<Rightarrow> None | Some (bs, r') \<Rightarrow> Some (b # bs, r')))"

text \<open>The number of octets a lead octet announces: its count of leading 1 bits.\<close>

definition octet_count :: "nat \<Rightarrow> nat" where
  "octet_count b = (if b < 0xE0 then 2 else if b < 0xF0 then 3 else 4)"

definition continuation :: "nat \<Rightarrow> bool" where
  "continuation b = (0x80 \<le> b \<and> b < 0xC0)"

text \<open>The code point of a well-formed UTF-8 sequence of 2 to 4 octets (no overlong form, no
  surrogate, nothing above \<open>U+10FFFF\<close>).\<close>

fun utf8_code_point :: "nat list \<Rightarrow> nat option" where
  "utf8_code_point [b0, b1] =
     (let cp = (b0 - 0xC0) * 64 + (b1 - 0x80)
      in if continuation b1 \<and> 0x80 \<le> cp then Some cp else None)"
| "utf8_code_point [b0, b1, b2] =
     (let cp = (b0 - 0xE0) * 4096 + (b1 - 0x80) * 64 + (b2 - 0x80)
      in if continuation b1 \<and> continuation b2 \<and> 0x800 \<le> cp \<and> \<not> (0xD800 \<le> cp \<and> cp \<le> 0xDFFF)
         then Some cp else None)"
| "utf8_code_point [b0, b1, b2, b3] =
     (let cp = (b0 - 0xF0) * 262144 + (b1 - 0x80) * 4096 + (b2 - 0x80) * 64 + (b3 - 0x80)
      in if continuation b1 \<and> continuation b2 \<and> continuation b3 \<and> 0x10000 \<le> cp \<and> cp \<le> 0x10FFFF
         then Some cp else None)"
| "utf8_code_point _ = None"

definition utf16_units :: "nat \<Rightarrow> jsstring" where
  "utf16_units cp =
     (if cp < 0x10000 then [of_nat cp]
      else [of_nat (0xD800 + (cp - 0x10000) div 0x400), of_nat (0xDC00 + (cp - 0x10000) mod 0x400)])"

function decodeURIComponent :: "jsstring \<Rightarrow> error + jsstring" where
  "decodeURIComponent [] = Inr []"
| "decodeURIComponent (c # cs) =
     (if c \<noteq> percent then
        (case decodeURIComponent cs of Inl e \<Rightarrow> Inl e | Inr r \<Rightarrow> Inr (c # r))
      else
        (case escaped_octet (c # cs) of
           None \<Rightarrow> Inl URIError
         | Some (b, rest) \<Rightarrow>
             if b < 0x80 then
               (case decodeURIComponent rest of Inl e \<Rightarrow> Inl e | Inr r \<Rightarrow> Inr (of_nat b # r))
             else if b < 0xC0 \<or> 0xF8 \<le> b then Inl URIError
             else
               (case escaped_octets (octet_count b - 1) rest of
                  None \<Rightarrow> Inl URIError
                | Some (bs, rest') \<Rightarrow>
                    (case utf8_code_point (b # bs) of
                       None \<Rightarrow> Inl URIError
                     | Some cp \<Rightarrow>
                         (case decodeURIComponent rest' of
                            Inl e \<Rightarrow> Inl e
                          | Inr r \<Rightarrow> Inr (utf16_units cp @ r))))))"
  by pat_completeness auto
termination
proof -
  have one: "length r < length s" if "escaped_octet s = Some (b, r)" for s b r
    using that by (induction s rule: escaped_octet.induct) (auto split: if_splits option.splits)
  have many: "length r \<le> length s" if "escaped_octets n s = Some (bs, r)" for n s bs r
    using that
  proof (induction n arbitrary: s bs r)
    case 0
    then show ?case by simp
  next
    case (Suc n)
    then show ?case by (fastforce split: option.splits dest: one)
  qed
  show ?thesis
    by (relation "measure length") (auto dest!: one many)
qed


section \<open>Objects with string keys\<close>

text \<open>
  \<open>BaggageObj\<close> is a plain object from string keys to string values. It is modelled as the
  list of its own properties in the order \<open>Object.keys\<close> and the spread \<open>{...obj}\<close>
  enumerate them: array-index keys first, ascending, then the other keys in the order they
  were created. Writing an existing key keeps its place.
\<close>

type_synonym baggage_obj = "(jsstring \<times> jsstring) list"

definition object_keys :: "baggage_obj \<Rightarrow> jsstring list" where
  "object_keys obj = map fst obj"

definition obj_get :: "baggage_obj \<Rightarrow> jsstring \<Rightarrow> jsstring option" where
  "obj_get obj key = map_of obj key"

definition is_digit :: "jschar \<Rightarrow> bool" where
  "is_digit c = (48 \<le> unat c \<and> unat c \<le> 57)"

definition decimal_value :: "jsstring \<Rightarrow> int" where
  "decimal_value s = foldl (\<lambda>acc c. 10 * acc + (uint c - 48)) 0 s"

text \<open>A key is an array index when it is the canonical decimal form of an integer from
  \<open>0\<close> to \<open>2^32 - 2\<close>.\<close>

definition array_index :: "jsstring \<Rightarrow> int option" where
  "array_index s =
     (if s \<noteq> [] \<and> list_all is_digit s \<and> (length s = 1 \<or> hd s \<noteq> 0x30) \<and> length s \<le> 10
         \<and> decimal_value s < 4294967295
      then Some (decimal_value s) else None)"

fun obj_insert_index :: "int \<Rightarrow> jsstring \<Rightarrow> jsstring \<Rightarrow> baggage_obj \<Rightarrow> baggage_obj" where
  "obj_insert_index i key val [] = [(key, val)]"
| "obj_insert_index i key val ((k, v) # rest) =
     (case array_index k of
        None \<Rightarrow> (key, val) # (k, v) # rest
      | Some j \<Rightarrow>
          if i < j then (key, val) # (k, v) # rest
          else (k, v) # obj_insert_index i key val rest)"

fun obj_overwrite :: "jsstring \<Rightarrow> jsstring \<Rightarrow> baggage_obj \<Rightarrow> baggage_obj" where
  "obj_overwrite key val [] = []"
| "obj_overwrite key val ((k, v) # rest) =
     (if k = key then (k, val) # rest else (k, v) # obj_overwrite key val rest)"

text \<open>\<open>{...obj, [key]: val}\<close>: a copy of \<open>obj\<close> with \<open>key\<close> set to \<open>val\<close>.\<close>

definition obj_set :: "baggage_obj \<Rightarrow> jsstring \<Rightarrow> jsstring \<Rightarrow> baggage_obj" where
  "obj_set obj key val =
     (if key \<in> set (object_keys obj) then obj_overwrite key val obj
      else (case array_index key of
              None \<Rightarrow> obj @ [(key, val)]
            | Some i \<Rightarrow> obj_insert_index i key val obj))"

section \<open>\<open>packages/utils/src/baggage.ts\<close>\<close>

text \<open>\<open>Baggage\<close> is the tuple \<open>[BaggageObj, string]\<close>: \<open>baggage[0]\<close> is \<open>fst\<close>, \<open>baggage[1]\<close>
  is \<open>snd\<close>.\<close>

type_synonym baggage = "baggage_obj \<times> jsstring"

definition BAGGAGE_HEADER_NAME :: jsstring where
  "BAGGAGE_HEADER_NAME = js ''baggage''"

definition SENTRY_BAGGAGE_KEY_PREFIX :: jsstring where
  "SENTRY_BAGGAGE_KEY_PREFIX = js ''sentry-''"

text \<open>\<open>SENTRY_BAGGAGE_KEY_PREFIX_REGEX.test(s)\<close> for the regular expression \<open>/^sentry-/\<close>.\<close>

definition SENTRY_BAGGAGE_KEY_PREFIX_REGEX_test :: "jsstring \<Rightarrow> bool" where
  "SENTRY_BAGGAGE_KEY_PREFIX_REGEX_test s = prefix (js ''sentry-'') s"

definition MAX_BAGGAGE_STRING_LENGTH :: nat where
  "MAX_BAGGAGE_STRING_LENGTH = 8192"

definition createBaggage :: "baggage_obj \<Rightarrow> jsstring \<Rightarrow> baggage" where
  "createBaggage initItems baggageString = (initItems, baggageString)"

text \<open>\<open>baggage[0][key]\<close> reads an own property, a string, or else walks to
  \<open>Object.prototype\<close>: for the name of one of its members the result is that member, which
  is not a string; for any other name it is \<open>undefined\<close>.\<close>

datatype js_value = Undefined | Str jsstring | Inherited

definition object_prototype_keys :: "jsstring list" where
  "object_prototype_keys =
     map js [''constructor'', ''__defineGetter__'', ''__defineSetter__'', ''hasOwnProperty'',
             ''__lookupGetter__'', ''__lookupSetter__'', ''isPrototypeOf'',
             ''propertyIsEnumerable'', ''toString'', ''valueOf'', ''__proto__'',
             ''toLocaleString'']"

definition getBaggageValue :: "baggage \<Rightarrow> jsstring \<Rightarrow> js_value" where
  "getBaggageValue baggage key =
     (case obj_get (fst baggage) key of
        Some v \<Rightarrow> Str v
      | None \<Rightarrow> if key \<in> set object_prototype_keys then Inherited else Undefined)"

text \<open>\<open>baggage[0][key] = value\<close> writes the own property, with one exception: for
  \<open>__proto__\<close>, when it is not an own property yet, the assignment reaches the setter
  inherited from \<open>Object.prototype\<close>, which ignores a string, and nothing is stored.\<close>

definition setBaggageValue :: "baggage \<Rightarrow> jsstring \<Rightarrow> jsstring \<Rightarrow> baggage" where
  "setBaggageValue baggage key val =
     (if key = js ''__proto__'' \<and> key \<notin> set (object_keys (fst baggage)) then baggage
      else (obj_set (fst baggage) key val, snd baggage))"

definition isBaggageEmpty :: "baggage \<Rightarrow> bool" where
  "isBaggageEmpty baggage = (length (object_keys (fst baggage)) = 0)"

definition getThirdPartyBaggage :: "baggage \<Rightarrow> jsstring" where
  "getThirdPartyBaggage baggage = snd baggage"

text \<open>\<open>Array.prototype.reduce\<close> with an initial value, for a callback that may throw: the
  first exception ends the reduction.\<close>

fun reduce_js :: "('a \<Rightarrow> 'b \<Rightarrow> error + 'a) \<Rightarrow> 'a \<Rightarrow> 'b list \<Rightarrow> error + 'a" where
  "reduce_js f acc [] = Inr acc"
| "reduce_js f acc (x # xs) =
     (case f acc x of Inl e \<Rightarrow> Inl e | Inr acc' \<Rightarrow> reduce_js f acc' xs)"

text \<open>The callback of \<open>serializeBaggage\<close>. The warning it logs in a debug build has no
  effect on the result and is left out.\<close>

definition serialize_step :: "baggage \<Rightarrow> jsstring \<Rightarrow> jsstring \<Rightarrow> error + jsstring" where
  "serialize_step baggage prev key =
     (let val = to_str (obj_get (fst baggage) key) in
      case encodeURIComponent key of
        Inl e \<Rightarrow> Inl e
      | Inr encKey \<Rightarrow>
          (case encodeURIComponent val of
             Inl e \<Rightarrow> Inl e
           | Inr encVal \<Rightarrow>
               (let baggageEntry = SENTRY_BAGGAGE_KEY_PREFIX @ encKey @ js ''='' @ encVal;
                    newVal = (if prev = [] then baggageEntry else prev @ js '','' @ baggageEntry)
                in if length newVal > MAX_BAGGAGE_STRING_LENGTH then Inr prev else Inr newVal)))"

definition serializeBaggage :: "baggage \<Rightarrow> error + jsstring" where
  "serializeBaggage baggage =
     reduce_js (serialize_step baggage) (snd baggage) (object_keys (fst baggage))"

text \<open>The callback of \<open>parseBaggageString\<close>; \<open>cur\<close> is the source's \<open>curr\<close>.
  \<open>const [key, val] = curr.split('=')\<close> takes the first two pieces of the split, and \<open>val\<close>
  is \<open>undefined\<close> when there is one piece only; \<open>key.split('-')[1]\<close> takes the second piece
  of the key.\<close>

definition parse_step :: "baggage \<Rightarrow> jsstring \<Rightarrow> error + baggage" where
  "parse_step acc cur =
     (let baggageObj = fst acc;
          baggageString = snd acc;
          key = to_str (nth_js (split_js equals cur) 0);
          val = nth_js (split_js equals cur) 1
      in if SENTRY_BAGGAGE_KEY_PREFIX_REGEX_test key then
           (case decodeURIComponent (to_str (nth_js (split_js dash key) 1)) of
              Inl e \<Rightarrow> Inl e
            | Inr baggageKey \<Rightarrow>
                (case decodeURIComponent (to_str val) of
                   Inl e \<Rightarrow> Inl e
                 | Inr decVal \<Rightarrow> Inr (obj_set baggageObj baggageKey decVal, baggageString)))
         else Inr (baggageObj, if baggageString = [] then cur else baggageString @ js '','' @ cur))"

definition parseBaggageString :: "jsstring \<Rightarrow> error + baggage" where
  "parseBaggageString inputBaggageString =
     reduce_js parse_step ([], []) (split_js comma inputBaggageString)"



section \<open>Notions used to state the properties\<close>

text \<open>The key of a comma-separated segment as \<open>parseBaggageString\<close> computes it, and the
  test that sends the segment to the first-party branch.\<close>

definition segment_key :: "jsstring \<Rightarrow> jsstring" where
  "segment_key cur = to_str (nth_js (split_js equals cur) 0)"

definition first_party :: "jsstring \<Rightarrow> bool" where
  "first_party cur = SENTRY_BAGGAGE_KEY_PREFIX_REGEX_test (segment_key cur)"

text \<open>A string without unpaired surrogates: the strings \<open>encodeURIComponent\<close> accepts.\<close>

fun well_formed :: "jsstring \<Rightarrow> bool" where
  "well_formed [] = True"
| "well_formed (c # cs) =
     (if is_lead c then (case cs of [] \<Rightarrow> False | d # ds \<Rightarrow> is_trail d \<and> well_formed ds)
      else \<not> is_trail c \<and> well_formed cs)"

definition well_formed_object :: "baggage_obj \<Rightarrow> bool" where
  "well_formed_object obj =
     list_all (\<lambda>key. well_formed key \<and> well_formed (to_str (obj_get obj key))) (object_keys obj)"

text \<open>The entry \<open>serializeBaggage\<close> builds for a key of an object: the template literal
  \<open>`${SENTRY_BAGGAGE_KEY_PREFIX}${encodeURIComponent(key)}=${encodeURIComponent(val)}`\<close>.\<close>

definition baggage_entry :: "baggage_obj \<Rightarrow> jsstring \<Rightarrow> error + jsstring" where
  "baggage_entry obj key =
     (case encodeURIComponent key of
        Inl e \<Rightarrow> Inl e
      | Inr encKey \<Rightarrow>
          (case encodeURIComponent (to_str (obj_get obj key)) of
             Inl e \<Rightarrow> Inl e
           | Inr encVal \<Rightarrow> Inr (SENTRY_BAGGAGE_KEY_PREFIX @ encKey @ js ''='' @ encVal)))"

text \<open>The characters \<open>encodeURIComponent\<close> can produce.\<close>

definition uri_char :: "jschar \<Rightarrow> bool" where
  "uri_char c = (unescaped c \<or> c = percent)"

text \<open>The key under which \<open>parseBaggageString\<close> stores a first-party segment:
  \<open>decodeURIComponent(key.split('-')[1])\<close>.\<close>

definition stored_key :: "jsstring \<Rightarrow> error + jsstring" where
  "stored_key cur = decodeURIComponent (to_str (nth_js (split_js dash (segment_key cur)) 1))"

text \<open>Strings of ASCII characters (code units below 128); printable ASCII is among them.\<close>

definition ascii :: "jsstring \<Rightarrow> bool" where
  "ascii s = list_all (\<lambda>c. unat c < 128) s"

text \<open>Serialisation as \<open>serializeBaggage\<close> does it, without the length check: the string the
  size cap is measured against.\<close>

definition naive_step :: "baggage \<Rightarrow> jsstring \<Rightarrow> jsstring \<Rightarrow> error + jsstring" where
  "naive_step baggage prev key =
     (case baggage_entry (fst baggage) key of
        Inl e \<Rightarrow> Inl e
      | Inr entry \<Rightarrow> Inr (if prev = [] then entry else prev @ js '','' @ entry))"

definition naive_serialize :: "baggage \<Rightarrow> error + jsstring" where
  "naive_serialize baggage =
     reduce_js (naive_step baggage) (snd baggage) (object_keys (fst baggage))"

text \<open>Entries joined the way the callback of \<open>serializeBaggage\<close> joins them, and items
  written one after the other the way the callback of \<open>parseBaggageString\<close> writes them.\<close>

definition join_entries :: "jsstring \<Rightarrow> jsstring list \<Rightarrow> jsstring" where
  "join_entries acc es = foldl (\<lambda>p e. if p = [] then e else p @ comma # e) acc es"

definition set_all :: "baggage_obj \<Rightarrow> baggage_obj \<Rightarrow> baggage_obj" where
  "set_all obj kvs = foldl (\<lambda>obj kv. obj_set obj (fst kv) (snd kv)) obj kvs"

text \<open>The entries that survive the size cap, in the words of the specification (section
  4.3): before each append the prospective total length is computed, with one more
  character for the comma when the accumulator is not empty; an entry that would take the
  total past the maximum is discarded, and the next entry gets its turn against the
  unchanged accumulator. \<open>kept_entries n es\<close> are the entries of \<open>es\<close> that survive when the
  accumulator is \<open>n\<close> characters long.\<close>

fun kept_entries :: "nat \<Rightarrow> jsstring list \<Rightarrow> jsstring list" where
  "kept_entries n [] = []"
| "kept_entries n (e # es) =
     (let m = (if n = 0 then length e else n + 1 + length e)
      in if m > MAX_BAGGAGE_STRING_LENGTH then kept_entries n es else e # kept_entries m es)"

text \<open>\<open>entry_of (k, v) e\<close>: the segment \<open>e\<close> is \<open>sentry-<ek>=<ev>\<close> for escaped forms \<open>ek\<close>,
  \<open>ev\<close> that decode to \<open>k\<close> and \<open>v\<close> and contain no separator of the parser.\<close>

definition entry_of :: "jsstring \<times> jsstring \<Rightarrow> jsstring \<Rightarrow> bool" where
  "entry_of kv e =
     (\<exists>ek ev. e = SENTRY_BAGGAGE_KEY_PREFIX @ ek @ equals # ev
        \<and> equals \<notin> set ek \<and> equals \<notin> set ev \<and> dash \<notin> set ek \<and> comma \<notin> set e
        \<and> decodeURIComponent ek = Inr (fst kv) \<and> decodeURIComponent ev = Inr (snd kv))"

section \<open>The Trace-Context Correlator\<close>

text \<open>
  Modelled from the spec: the Trace-Context Correlator (section 4.5 and the TraceContext
  entity of section 3). Its code is not among the sources; only the integration test
  \<open>suites/tracing/browsertracing/meta/test.ts\<close> that observes it is. Identifiers are
  natural numbers. An operation is the trace context of its root span.
\<close>

datatype operation_kind = Pageload | Navigation | Child

record trace_context =
  traceId :: nat
  spanId :: nat
  parentSpanId :: "nat option"
  operationKind :: operation_kind

text \<open>Modelled from the spec: the states \<open>NoContext\<close>, \<open>PageloadContext(traceId, rootSpanId)\<close>
  and \<open>NavigationContext(traceId, rootSpanId)\<close>.\<close>

datatype context_state = NoContext | PageloadContext nat nat | NavigationContext nat nat

text \<open>Modelled from the spec: the correlator's state. \<open>rootOpen\<close> says whether the root
  span of the current operation has not completed yet; \<open>operations\<close> holds every operation
  started, oldest first; \<open>spans\<close> holds every child span with the index of the operation it
  was created under; \<open>seen\<close> holds every identifier discovered or generated so far.\<close>

record correlator =
  ctx :: context_state
  rootOpen :: bool
  operations :: "trace_context list"
  spans :: "(nat \<times> trace_context) list"
  seen :: "nat list"

definition initial :: correlator where
  "initial = \<lparr>ctx = NoContext, rootOpen = False, operations = [], spans = [], seen = []\<rparr>"

text \<open>Modelled from the spec: a freshly generated identifier is one not seen before.\<close>

definition fresh :: "nat list \<Rightarrow> nat" where
  "fresh ids = Suc (foldr max ids 0)"

text \<open>Modelled from the spec: the events. \<open>InitialLoad t p\<close> is the initial load with the
  discovered trace id \<open>t\<close> and parent span id \<open>p\<close>.\<close>

datatype event = InitialLoad nat nat | NavigationEvent | CreateSpan | RootSpanCompletes

definition start_operation ::
  "correlator \<Rightarrow> context_state \<Rightarrow> trace_context \<Rightarrow> nat list \<Rightarrow> correlator" where
  "start_operation st c root ids =
     st\<lparr>ctx := c, rootOpen := True, operations := operations st @ [root], seen := ids\<rparr>"

definition add_span :: "correlator \<Rightarrow> nat \<Rightarrow> nat \<Rightarrow> correlator" where
  "add_span st t r =
     (let s = fresh (seen st)
      in st\<lparr>spans := spans st @
                [(length (operations st) - 1,
                  \<lparr>traceId = t, spanId = s, parentSpanId = Some r, operationKind = Child\<rparr>)],
            seen := s # seen st\<rparr>)"

text \<open>Modelled from the spec: the transitions. The initial load creates the pageload
  operation, which inherits the discovered trace id, has the discovered identifier as
  parent and a fresh root span id. A navigation starts a new operation with a fresh trace
  id, a fresh root span id and no parent. A span created while an operation is active gets
  the operation's trace id and its root span id as parent; once the root span has
  completed, or without an operation, the request is ignored.\<close>

fun step :: "correlator \<Rightarrow> event \<Rightarrow> correlator" where
  "step st (InitialLoad t p) =
     (case ctx st of
        NoContext \<Rightarrow>
          (let s = fresh (t # p # seen st)
           in start_operation st (PageloadContext t s)
                \<lparr>traceId = t, spanId = s, parentSpanId = Some p, operationKind = Pageload\<rparr>
                (s # t # p # seen st))
      | _ \<Rightarrow> st)"
| "step st NavigationEvent =
     (case ctx st of
        NoContext \<Rightarrow> st
      | _ \<Rightarrow>
          (let t = fresh (seen st); s = fresh (t # seen st)
           in start_operation st (NavigationContext t s)
                \<lparr>traceId = t, spanId = s, parentSpanId = None, operationKind = Navigation\<rparr>
                (s # t # seen st)))"
| "step st CreateSpan =
     (if rootOpen st then
        (case ctx st of
           NoContext \<Rightarrow> st
         | PageloadContext t r \<Rightarrow> add_span st t r
         | NavigationContext t r \<Rightarrow> add_span st t r)
      else st)"
| "step st RootSpanCompletes = st\<lparr>rootOpen := False\<rparr>"

definition run :: "event list \<Rightarrow> correlator" where
  "run evs = foldl step initial evs"

text \<open>The invariant of the correlator: operations have pairwise distinct trace ids and root
  span ids, all of them seen; the state names the last operation; every span points to the
  operation it was created under.\<close>

definition context_matches :: "context_state \<Rightarrow> trace_context list \<Rightarrow> bool" where
  "context_matches c ops =
     (case c of
        NoContext \<Rightarrow> ops = []
      | PageloadContext t r \<Rightarrow> ops \<noteq> [] \<and> traceId (last ops) = t \<and> spanId (last ops) = r
      | NavigationContext t r \<Rightarrow> ops \<noteq> [] \<and> traceId (last ops) = t \<and> spanId (last ops) = r)"

definition span_attached :: "trace_context list \<Rightarrow> nat \<times> trace_context \<Rightarrow> bool" where
  "span_attached ops isp =
     (fst isp < length ops \<and> parentSpanId (snd isp) = Some (spanId (ops ! fst isp))
      \<and> traceId (snd isp) = traceId (ops ! fst isp))"

definition correlator_inv :: "correlator \<Rightarrow> bool" where
  "correlator_inv st =
     (distinct (map traceId (operations st)) \<and> distinct (map spanId (operations st))
      \<and> traceId ` set (operations st) \<subseteq> set (seen st)
      \<and> spanId ` set (operations st) \<subseteq> set (seen st)
      \<and> context_matches (ctx st) (operations st)
      \<and> list_all (span_attached (operations st)) (spans st))"

section \<open>Splitting and reducing\<close>

lemma js_comma: "js '','' = [comma]"
  by (simp add: js_def comma_def)

lemma js_equals: "js ''='' = [equals]"
  by (simp add: js_def equals_def)

lemma split_js_not_Nil: "split_js sep s \<noteq> []"
  by (induction s) (auto split: list.splits)

lemma split_js_no_sep: "sep \<notin> set s \<Longrightarrow> split_js sep s = [s]"
  by (induction s) auto

lemma split_js_append: "split_js sep (xs @ sep # ys) = split_js sep xs @ split_js sep ys"
proof (induction xs)
  case Nil
  then show ?case by simp
next
  case (Cons c xs)
  then show ?case
    using split_js_not_Nil [of sep xs] by (cases "split_js sep xs") auto
qed

lemma split_js_Cons:
  "split_js sep (c # s) =
     (if c = sep then [] # split_js sep s
      else (c # hd (split_js sep s)) # tl (split_js sep s))"
  using split_js_not_Nil [of sep s] by (cases "split_js sep s") auto

lemma split_js_segment: "seg \<in> set (split_js sep s) \<Longrightarrow> sep \<notin> set seg"
proof (induction s arbitrary: seg)
  case Nil
  then show ?case by simp
next
  case (Cons c s)
  obtain x xs where sp: "split_js sep s = x # xs"
    using split_js_not_Nil [of sep s] by (cases "split_js sep s") auto
  have ih: "sep \<notin> set y" if "y \<in> set (x # xs)" for y
    using Cons.IH [of y] that sp by simp
  show ?case
  proof (cases "c = sep")
    case True
    with Cons.prems sp have "seg = [] \<or> seg \<in> set (x # xs)" by auto
    with ih show ?thesis by auto
  next
    case False
    with Cons.prems sp have "seg = c # x \<or> seg \<in> set xs" by auto
    with ih False show ?thesis by auto
  qed
qed

lemma split_js_join: "split_js sep s = x # xs \<Longrightarrow> s = x @ concat (map ((#) sep) xs)"
proof (induction s arbitrary: x xs)
  case Nil
  then show ?case by simp
next
  case (Cons c s)
  obtain y ys where sp: "split_js sep s = y # ys"
    using split_js_not_Nil [of sep s] by (cases "split_js sep s") auto
  have s: "s = y @ concat (map ((#) sep) ys)"
    using Cons.IH [OF sp] .
  show ?case
  proof (cases "c = sep")
    case True
    with Cons.prems sp have "x = []" "xs = y # ys" by auto
    with s True show ?thesis by simp
  next
    case False
    with Cons.prems sp have "x = c # y" "xs = ys" by auto
    with s show ?thesis by simp
  qed
qed

lemma reduce_js_append:
  "reduce_js f a (xs @ ys) =
     (case reduce_js f a xs of Inl e \<Rightarrow> Inl e | Inr a' \<Rightarrow> reduce_js f a' ys)"
proof (induction xs arbitrary: a)
  case Nil
  then show ?case by simp
next
  case (Cons x xs)
  then show ?case by (cases "f a x") simp_all
qed

lemma reduce_js_invariant:
  assumes "reduce_js f a xs = Inr r" and "P a"
    and "\<And>b x b'. P b \<Longrightarrow> x \<in> set xs \<Longrightarrow> f b x = Inr b' \<Longrightarrow> P b'"
  shows "P r"
  using assms
proof (induction xs arbitrary: a)
  case Nil
  then show ?case by simp
next
  case (Cons x xs)
  from Cons.prems(1) obtain a' where step: "f a x = Inr a'" and rest: "reduce_js f a' xs = Inr r"
    by (cases "f a x") simp_all
  have "P a'" using Cons.prems(3) [OF Cons.prems(2) _ step] by simp
  moreover have "P b'" if "P b" "y \<in> set xs" "f b y = Inr b'" for b y b'
    using Cons.prems(3) [of b y b'] that by simp
  ultimately show ?case using Cons.IH [OF rest] by blast
qed

lemma reduce_js_total:
  assumes "\<And>b x. x \<in> set xs \<Longrightarrow> \<exists>b'. f b x = Inr b'"
  shows "\<exists>r. reduce_js f a xs = Inr r"
  using assms
proof (induction xs arbitrary: a)
  case Nil
  then show ?case by simp
next
  case (Cons x xs)
  obtain a' where step: "f a x = Inr a'"
    using Cons.prems [of x a] by auto
  have "\<exists>r. reduce_js f a' xs = Inr r"
    using Cons.IH [of a'] Cons.prems by simp
  with step show ?case by simp
qed

lemma unescaped_not_surrogate: "unescaped c \<Longrightarrow> \<not> is_lead c \<and> \<not> is_trail c"
  by (auto simp: unescaped_def is_lead_def is_trail_def Let_def)

lemma encode_well_formed: "well_formed s \<Longrightarrow> \<exists>e. encodeURIComponent s = Inr e"
proof (induction s rule: well_formed.induct)
  case 1
  then show ?case by simp
next
  case (2 c cs)
  show ?case
  proof (cases "is_lead c")
    case True
    with "2.prems" obtain d ds where cs: "cs = d # ds" and d: "is_trail d" and wf: "well_formed ds"
      by (auto split: list.splits)
    from "2.IH"(1) [OF True cs wf] obtain e where "encodeURIComponent ds = Inr e" ..
    with True cs d unescaped_not_surrogate [of c] show ?thesis by auto
  next
    case False
    with "2.prems" have nt: "\<not> is_trail c" and wf: "well_formed cs" by auto
    from "2.IH"(2) [OF False wf] obtain e where "encodeURIComponent cs = Inr e" ..
    with False nt show ?thesis by auto
  qed
qed

section \<open>What \<open>encodeURIComponent\<close> produces\<close>

lemma unat_jschar_less: "unat (c :: jschar) < 65536"
  using unsigned_less [of c, where 'a = nat] by simp

lemma unat_of_nat_jschar: "m < 65536 \<Longrightarrow> unat (of_nat m :: jschar) = m"
  by (simp add: unat_of_nat)

lemma unat_hexdigit: "n < 16 \<Longrightarrow> unat (hexdigit n) = (if n < 10 then 48 + n else 55 + n)"
  using unat_of_nat_jschar [of "48 + n"] unat_of_nat_jschar [of "55 + n"]
  by (simp add: hexdigit_def)

lemma unescaped_hexdigit: "n < 16 \<Longrightarrow> unescaped (hexdigit n)"
  by (simp add: unescaped_def unat_hexdigit Let_def)

lemma unat_percent: "unat percent = 37"
  by (simp add: percent_def)

lemma unat_comma: "unat comma = 44"
  by (simp add: comma_def)

lemma unat_equals: "unat equals = 61"
  by (simp add: equals_def)

lemma unat_dash: "unat dash = 45"
  by (simp add: dash_def)

lemma not_unescaped_comma: "\<not> unescaped comma"
  by (simp add: unescaped_def unat_comma)

lemma not_unescaped_equals: "\<not> unescaped equals"
  by (simp add: unescaped_def unat_equals)

lemma not_unescaped_percent: "\<not> unescaped percent"
  by (simp add: unescaped_def unat_percent)

lemma escape_octet_chars: "b < 256 \<Longrightarrow> list_all uri_char (escape_octet b)"
  by (simp add: escape_octet_def uri_char_def unescaped_hexdigit)

lemma escape_octets_chars: "list_all (\<lambda>b. b < 256) bs \<Longrightarrow> list_all uri_char (escape_octets bs)"
  by (induction bs) (simp_all add: escape_octets_def escape_octet_chars)

lemma utf8_octets_bound:
  assumes "cp < 0x110000"
  shows "list_all (\<lambda>b. b < 256) (utf8_octets cp)"
proof -
  have m: "x mod 64 < 64" for x :: nat by simp
  have d1: "cp div 64 < 32" if "cp < 0x800"
    using that by (intro less_mult_imp_div_less) simp
  have d2: "cp div 4096 < 16" if "cp < 0x10000"
    using that by (intro less_mult_imp_div_less) simp
  have d3: "cp div 262144 < 16"
    using assms by (intro less_mult_imp_div_less) simp
  show ?thesis
    using m [of cp] m [of "cp div 64"] m [of "cp div 4096"] d1 d2 d3
    by (auto simp: utf8_octets_def)
qed

lemma surrogate_pair_bound:
  assumes "is_lead c" and "is_trail d"
  shows "surrogate_pair c d < 0x110000"
proof -
  have "unat c - 0xD800 \<le> 1023" and "unat d - 0xDC00 \<le> 1023"
    using assms by (auto simp: is_lead_def is_trail_def)
  then have "(unat c - 0xD800) * 0x400 + (unat d - 0xDC00) \<le> 1023 * 0x400 + 1023"
    by (intro add_mono mult_le_mono1)
  then show ?thesis by (simp add: surrogate_pair_def)
qed

lemma encode_chars: "encodeURIComponent s = Inr e \<Longrightarrow> list_all uri_char e"
proof (induction s arbitrary: e rule: encodeURIComponent.induct)
  case 1
  then show ?case by simp
next
  case (2 c cs)
  show ?case
  proof (cases "unescaped c")
    case True
    with "2.prems" obtain r where r: "encodeURIComponent cs = Inr r" and e: "e = c # r"
      by (cases "encodeURIComponent cs") simp_all
    from "2.IH"(1) [OF True r] True e show ?thesis by (simp add: uri_char_def)
  next
    case False
    show ?thesis
    proof (cases "is_lead c")
      case True
      with False "2.prems" obtain d ds where cs: "cs = d # ds" and d: "is_trail d"
        by (cases cs) (simp_all split: if_splits)
      with False True "2.prems" obtain r where r: "encodeURIComponent ds = Inr r"
        and e: "e = escape_octets (utf8_octets (surrogate_pair c d)) @ r"
        by (cases "encodeURIComponent ds") simp_all
      have "list_all uri_char r" using "2.IH"(2) [OF False True cs d r] .
      moreover have "list_all uri_char (escape_octets (utf8_octets (surrogate_pair c d)))"
        using True d by (intro escape_octets_chars utf8_octets_bound surrogate_pair_bound)
      ultimately show ?thesis using e by simp
    next
      case nl: False
      with False "2.prems" have nt: "\<not> is_trail c" by (simp split: if_splits)
      with False nl "2.prems" obtain r where r: "encodeURIComponent cs = Inr r"
        and e: "e = escape_octets (utf8_octets (unat c)) @ r"
        by (cases "encodeURIComponent cs") simp_all
      have "list_all uri_char r" using "2.IH"(3) [OF False nl nt r] .
      moreover have "unat c < 0x110000" using unat_jschar_less [of c] by simp
      then have "list_all uri_char (escape_octets (utf8_octets (unat c)))"
        by (intro escape_octets_chars utf8_octets_bound)
      ultimately show ?thesis using e by simp
    qed
  qed
qed

lemma encode_no_comma: "encodeURIComponent s = Inr e \<Longrightarrow> comma \<notin> set e"
proof
  assume "encodeURIComponent s = Inr e" and "comma \<in> set e"
  then have "uri_char comma" using encode_chars [of s e] by (simp add: list_all_iff)
  then show False
    using not_unescaped_comma unat_comma unat_percent by (auto simp: uri_char_def)
qed

lemma encode_no_equals: "encodeURIComponent s = Inr e \<Longrightarrow> equals \<notin> set e"
proof
  assume "encodeURIComponent s = Inr e" and "equals \<in> set e"
  then have "uri_char equals" using encode_chars [of s e] by (simp add: list_all_iff)
  then show False
    using not_unescaped_equals unat_equals unat_percent by (auto simp: uri_char_def)
qed

section \<open>\<open>serializeBaggage\<close>: length and third-party entries\<close>

lemma prefix_no_comma: "comma \<notin> set SENTRY_BAGGAGE_KEY_PREFIX"
  by (simp add: SENTRY_BAGGAGE_KEY_PREFIX_def js_def comma_def)

lemma comma_not_equals: "comma \<noteq> equals"
  by (simp add: comma_def equals_def)

lemma baggage_entry_no_comma: "baggage_entry obj key = Inr entry \<Longrightarrow> comma \<notin> set entry"
  by (auto simp: baggage_entry_def js_equals prefix_no_comma comma_not_equals
      split: sum.splits dest: encode_no_comma)

lemma baggage_entry_not_Nil: "baggage_entry obj key = Inr entry \<Longrightarrow> entry \<noteq> []"
  by (auto simp: baggage_entry_def js_equals split: sum.splits)

lemma serialize_step_entry:
  "serialize_step baggage prev key =
     (case baggage_entry (fst baggage) key of
        Inl e \<Rightarrow> Inl e
      | Inr entry \<Rightarrow>
          (if length (if prev = [] then entry else prev @ comma # entry) > MAX_BAGGAGE_STRING_LENGTH
           then Inr prev else Inr (if prev = [] then entry else prev @ comma # entry)))"
  by (simp add: serialize_step_def baggage_entry_def Let_def js_comma split: sum.splits)

lemma serialize_step_cases:
  assumes "serialize_step baggage prev key = Inr new"
  shows "new = prev \<or>
         (\<exists>entry. baggage_entry (fst baggage) key = Inr entry
            \<and> new = (if prev = [] then entry else prev @ comma # entry)
            \<and> length new \<le> MAX_BAGGAGE_STRING_LENGTH)"
proof (cases "baggage_entry (fst baggage) key")
  case (Inl e)
  with assms show ?thesis by (simp add: serialize_step_entry)
next
  case (Inr entry)
  with assms show ?thesis
    by (cases "length (if prev = [] then entry else prev @ comma # entry) > MAX_BAGGAGE_STRING_LENGTH")
      (auto simp: serialize_step_entry)
qed

lemma serialize_step_total:
  assumes "well_formed key" and "well_formed (to_str (obj_get (fst baggage) key))"
  shows "\<exists>new. serialize_step baggage prev key = Inr new"
proof -
  obtain k where k: "encodeURIComponent key = Inr k"
    using encode_well_formed [OF assms(1)] ..
  obtain v where v: "encodeURIComponent (to_str (obj_get (fst baggage) key)) = Inr v"
    using encode_well_formed [OF assms(2)] ..
  show ?thesis by (simp add: serialize_step_def k v Let_def)
qed

lemma serializeBaggage_total:
  assumes "well_formed_object (fst baggage)"
  shows "\<exists>s. serializeBaggage baggage = Inr s"
  unfolding serializeBaggage_def
proof (rule reduce_js_total)
  fix prev key
  assume "key \<in> set (object_keys (fst baggage))"
  with assms have "well_formed key" "well_formed (to_str (obj_get (fst baggage) key))"
    by (simp_all add: well_formed_object_def list_all_iff)
  then show "\<exists>new. serialize_step baggage prev key = Inr new"
    by (rule serialize_step_total)
qed

lemma serializeBaggage_shape:
  assumes "serializeBaggage baggage = Inr s"
  shows "length s \<le> max MAX_BAGGAGE_STRING_LENGTH (length (snd baggage))
         \<and> (snd baggage = [] \<or> s = snd baggage \<or> (\<exists>t. s = snd baggage @ comma # t))"
proof -
  let ?r = "snd baggage"
  let ?P = "\<lambda>acc. length acc \<le> max MAX_BAGGAGE_STRING_LENGTH (length ?r)
               \<and> (?r = [] \<or> acc = ?r \<or> (\<exists>t. acc = ?r @ comma # t))"
  have "?P s"
  proof (rule reduce_js_invariant [where P = ?P and f = "serialize_step baggage"
          and a = ?r and xs = "object_keys (fst baggage)"])
    show "reduce_js (serialize_step baggage) ?r (object_keys (fst baggage)) = Inr s"
      using assms by (simp add: serializeBaggage_def)
    show "?P ?r" by simp
  next
    fix prev key new
    assume P: "?P prev" and step: "serialize_step baggage prev key = Inr new"
    from serialize_step_cases [OF step] show "?P new"
    proof
      assume "new = prev"
      with P show ?thesis by simp
    next
      assume "\<exists>entry. baggage_entry (fst baggage) key = Inr entry
            \<and> new = (if prev = [] then entry else prev @ comma # entry)
            \<and> length new \<le> MAX_BAGGAGE_STRING_LENGTH"
      then obtain entry where new: "new = (if prev = [] then entry else prev @ comma # entry)"
        and len: "length new \<le> MAX_BAGGAGE_STRING_LENGTH" by blast
      show ?thesis
      proof (cases "?r = []")
        case True
        with len show ?thesis by simp
      next
        case False
        with P have "prev = ?r \<or> (\<exists>t. prev = ?r @ comma # t)" by simp
        then have "\<exists>t. new = ?r @ comma # t"
          using new False by auto
        with len show ?thesis by auto
      qed
    qed
  qed
  then show ?thesis .
qed

lemma split_js_prefix:
  "prefix (split_js sep r) (split_js sep (r @ sep # t))"
  by (simp add: split_js_append)

text \<open>
  C10. For every string \<open>r\<close>, \<open>serializeBaggage(createBaggage({}, r))\<close> returns exactly \<open>r\<close>,
  whatever its length: the length check sits in the callback, which runs once per
  first-party key, and with no key the reduction returns its initial value, the remainder.
\<close>

theorem serializeBaggage_no_items: "serializeBaggage (createBaggage [] r) = Inr r"
  by (simp add: serializeBaggage_def createBaggage_def object_keys_def)

lemma serialize_reduce_entries:
  assumes "reduce_js (serialize_step baggage) acc keys = Inr s"
  shows "\<exists>es. list_all2 (\<lambda>key e. baggage_entry (fst baggage) key = Inr e) keys es"
  using assms
proof (induction keys arbitrary: acc)
  case Nil
  then show ?case by simp
next
  case (Cons key keys)
  from Cons.prems obtain a1 where step: "serialize_step baggage acc key = Inr a1"
    and rest: "reduce_js (serialize_step baggage) a1 keys = Inr s"
    by (cases "serialize_step baggage acc key") simp_all
  from step obtain e where e: "baggage_entry (fst baggage) key = Inr e"
    by (cases "baggage_entry (fst baggage) key") (simp_all add: serialize_step_entry)
  from Cons.IH [OF rest] obtain es
    where "list_all2 (\<lambda>key e. baggage_entry (fst baggage) key = Inr e) keys es" ..
  with e have "list_all2 (\<lambda>key e. baggage_entry (fst baggage) key = Inr e) (key # keys) (e # es)"
    by simp
  then show ?case ..
qed

lemma serialize_reduce_kept:
  assumes "list_all2 (\<lambda>key e. baggage_entry (fst baggage) key = Inr e) keys es"
  shows "reduce_js (serialize_step baggage) acc keys
           = Inr (join_entries acc (kept_entries (length acc) es))"
  using assms
proof (induction keys es arbitrary: acc rule: list_all2_induct)
  case Nil
  then show ?case by (simp add: join_entries_def)
next
  case (Cons key keys e es)
  let ?new = "if acc = [] then e else acc @ comma # e"
  have len: "length ?new = (if length acc = 0 then length e else length acc + 1 + length e)"
    by simp
  show ?case
  proof (cases "length ?new > MAX_BAGGAGE_STRING_LENGTH")
    case True
    then have "serialize_step baggage acc key = Inr acc"
      using Cons.hyps(1) by (simp add: serialize_step_entry)
    moreover have "kept_entries (length acc) (e # es) = kept_entries (length acc) es"
      using True unfolding len by (simp add: Let_def)
    ultimately show ?thesis using Cons.IH [of acc] by simp
  next
    case False
    then have "serialize_step baggage acc key = Inr ?new"
      using Cons.hyps(1) by (simp add: serialize_step_entry)
    moreover have "kept_entries (length acc) (e # es) = e # kept_entries (length ?new) es"
      using False unfolding len by (simp add: Let_def)
    moreover have "join_entries acc (e # kept_entries (length ?new) es)
        = join_entries ?new (kept_entries (length ?new) es)"
      by (simp add: join_entries_def)
    ultimately show ?thesis using Cons.IH [of ?new] by simp
  qed
qed

lemma serializeBaggage_kept:
  assumes "serializeBaggage baggage = Inr s"
  shows "\<exists>es. list_all2 (\<lambda>key e. baggage_entry (fst baggage) key = Inr e)
                (object_keys (fst baggage)) es
            \<and> s = join_entries (snd baggage) (kept_entries (length (snd baggage)) es)"
proof -
  from assms have red: "reduce_js (serialize_step baggage) (snd baggage)
      (object_keys (fst baggage)) = Inr s"
    by (simp add: serializeBaggage_def)
  from serialize_reduce_entries [OF red] obtain es
    where es: "list_all2 (\<lambda>key e. baggage_entry (fst baggage) key = Inr e)
                (object_keys (fst baggage)) es" ..
  from serialize_reduce_kept [OF es, of "snd baggage"] red
  have "s = join_entries (snd baggage) (kept_entries (length (snd baggage)) es)" by simp
  with es show ?thesis by blast
qed

text \<open>
  C1, as the code has it. The length check guards each first-party entry that is appended
  and never the third-party remainder the reduction starts from. So: when the keys and
  values of the items have no unpaired surrogate, \<open>serializeBaggage\<close> returns a string;
  whenever it returns a string \<open>s\<close>, the length of \<open>s\<close> is at most the larger of 8192 and
  the length of the remainder (hence at most 8192 when the remainder is); the remainder is
  a prefix of \<open>s\<close>; the comma-separated segments of a non-empty remainder are the first
  segments of \<open>s\<close>, so no third-party entry is dropped; and \<open>s\<close> is the remainder followed,
  comma-joined and in the order of the keys, by exactly the entries that survive the cap:
  an entry is appended when the string with it is at most 8192 long and is dropped
  otherwise, one by one, later entries still getting their turn.
\<close>

theorem serializeBaggage_bounded:
  "(well_formed_object (fst baggage) \<longrightarrow> (\<exists>s. serializeBaggage baggage = Inr s)) \<and>
   (\<forall>s. serializeBaggage baggage = Inr s \<longrightarrow>
      length s \<le> max MAX_BAGGAGE_STRING_LENGTH (length (snd baggage))
      \<and> prefix (snd baggage) s
      \<and> (snd baggage \<noteq> [] \<longrightarrow> prefix (split_js comma (snd baggage)) (split_js comma s))
      \<and> (\<exists>es. list_all2 (\<lambda>key e. baggage_entry (fst baggage) key = Inr e)
                  (object_keys (fst baggage)) es
              \<and> s = join_entries (snd baggage) (kept_entries (length (snd baggage)) es)))"
proof (intro conjI impI allI)
  assume "well_formed_object (fst baggage)"
  then show "\<exists>s. serializeBaggage baggage = Inr s" by (rule serializeBaggage_total)
next
  fix s assume s: "serializeBaggage baggage = Inr s"
  from serializeBaggage_shape [OF s]
  show "length s \<le> max MAX_BAGGAGE_STRING_LENGTH (length (snd baggage))" by simp
  from serializeBaggage_shape [OF s] show "prefix (snd baggage) s" by auto
  from s show "\<exists>es. list_all2 (\<lambda>key e. baggage_entry (fst baggage) key = Inr e)
                  (object_keys (fst baggage)) es
              \<and> s = join_entries (snd baggage) (kept_entries (length (snd baggage)) es)"
    by (rule serializeBaggage_kept)
  assume "snd baggage \<noteq> []"
  with serializeBaggage_shape [OF s]
  have "s = snd baggage \<or> (\<exists>t. s = snd baggage @ comma # t)" by simp
  then show "prefix (split_js comma (snd baggage)) (split_js comma s)"
    using split_js_prefix by auto
qed

text \<open>The theorem at the cap: with a remainder of 8180 characters the entry
  \<open>sentry-a=0123456789\<close> would make 8200 characters and is dropped, the later entry
  \<open>sentry-b=1\<close> makes 8191 and is kept.\<close>

theorem serializeBaggage_bounded_witness:
  "serializeBaggage
     (createBaggage [(js ''a'', js ''0123456789''), (js ''b'', js ''1'')]
        (replicate 8180 (of_char CHR ''x'')))
     = Inr (replicate 8180 (of_char CHR ''x'') @ js '',sentry-b=1'')
   \<and> length (replicate 8180 (of_char CHR ''x'') @ js '',sentry-a=0123456789'' :: jsstring) = 8200
   \<and> length (replicate 8180 (of_char CHR ''x'') @ js '',sentry-b=1'' :: jsstring) = 8191"
proof -
  let ?items = "[(js ''a'', js ''0123456789''), (js ''b'', js ''1'')]"
  let ?r = "replicate 8180 (of_char CHR ''x'') :: jsstring"
  let ?b = "createBaggage ?items ?r"
  have wf: "well_formed_object (fst ?b)"
    by (simp add: well_formed_object_def createBaggage_def object_keys_def obj_get_def
        to_str_def js_def is_lead_def is_trail_def)
  have ea: "baggage_entry ?items (js ''a'') = Inr (js ''sentry-a=0123456789'')"
    and eb: "baggage_entry ?items (js ''b'') = Inr (js ''sentry-b=1'')"
    by (simp_all add: baggage_entry_def obj_get_def to_str_def js_def unescaped_def
        SENTRY_BAGGAGE_KEY_PREFIX_def)
  from serializeBaggage_bounded [of ?b, THEN conjunct1, rule_format, OF wf]
  obtain s where s: "serializeBaggage ?b = Inr s" ..
  from serializeBaggage_bounded [of ?b, THEN conjunct2, rule_format, OF s]
  obtain es where es: "list_all2 (\<lambda>key e. baggage_entry (fst ?b) key = Inr e)
                  (object_keys (fst ?b)) es"
    and eq: "s = join_entries (snd ?b) (kept_entries (length (snd ?b)) es)"
    by blast
  from es have "list_all2 (\<lambda>key e. baggage_entry ?items key = Inr e) [js ''a'', js ''b''] es"
    by (simp add: createBaggage_def object_keys_def)
  then have "es = [js ''sentry-a=0123456789'', js ''sentry-b=1'']"
    by (auto simp: list_all2_Cons1 ea eb)
  with eq have "s = ?r @ js '',sentry-b=1''"
    by (simp add: createBaggage_def join_entries_def MAX_BAGGAGE_STRING_LENGTH_def js_def
        comma_def)
  with s show ?thesis by (simp add: js_def)
qed

text \<open>C1 as stated fails: a remainder of 8193 characters comes back whole, while the
  first-party entry \<open>sentry-a=1\<close> is dropped.\<close>

theorem serializeBaggage_exceeds_counterexample:
  "serializeBaggage (createBaggage [(js ''a'', js ''1'')] (replicate 8193 (of_char CHR ''x'')))
     = Inr (replicate 8193 (of_char CHR ''x''))
   \<and> \<not> length (replicate 8193 (of_char CHR ''x'') :: jsstring) \<le> 8192"
  by (simp add: serializeBaggage_def createBaggage_def object_keys_def serialize_step_def
      obj_get_def to_str_def js_def unescaped_def SENTRY_BAGGAGE_KEY_PREFIX_def
      MAX_BAGGAGE_STRING_LENGTH_def)

section \<open>\<open>parseBaggageString\<close>: the third-party remainder\<close>

lemma segment_key_Nil: "segment_key [] = []"
  by (simp add: segment_key_def to_str_def)

lemma not_first_party_Nil: "\<not> first_party []"
  by (simp add: first_party_def segment_key_Nil SENTRY_BAGGAGE_KEY_PREFIX_REGEX_test_def js_def)

lemma parse_step_third_party:
  "\<not> first_party cur \<Longrightarrow>
     parse_step acc cur = Inr (fst acc, if snd acc = [] then cur else snd acc @ comma # cur)"
  by (simp add: parse_step_def first_party_def segment_key_def Let_def js_comma)

lemma parse_step_first_party:
  assumes "first_party cur" and "parse_step acc cur = Inr acc'"
  shows "snd acc' = snd acc"
  using assms
  by (auto simp: parse_step_def first_party_def segment_key_def Let_def split: sum.splits)

lemma reduce_third_party:
  assumes "\<forall>cur \<in> set segs. \<not> first_party cur" and "rem \<noteq> []"
  shows "reduce_js parse_step (obj, rem) segs = Inr (obj, rem @ concat (map ((#) comma) segs))"
  using assms
proof (induction segs arbitrary: rem)
  case Nil
  then show ?case by simp
next
  case (Cons cur segs)
  have step: "parse_step (obj, rem) cur = Inr (obj, rem @ comma # cur)"
    using Cons.prems by (simp add: parse_step_third_party)
  have "reduce_js parse_step (obj, rem @ comma # cur) segs
          = Inr (obj, (rem @ comma # cur) @ concat (map ((#) comma) segs))"
    using Cons.prems by (intro Cons.IH) simp_all
  with step show ?case by simp
qed

text \<open>
  C7, as the code has it. For every raw header none of whose comma-separated segments has a
  key beginning with \<open>sentry-\<close>, and which is empty or does not begin with a comma,
  \<open>parseBaggageString\<close> returns no items and the header itself as remainder, and
  \<open>serializeBaggage\<close> of that baggage returns the header, character for character.
\<close>

theorem parse_serialize_third_party:
  assumes "\<forall>seg \<in> set (split_js comma header). \<not> first_party seg"
    and "header = [] \<or> hd header \<noteq> comma"
  shows "parseBaggageString header = Inr ([], header) \<and> serializeBaggage ([], header) = Inr header"
proof -
  obtain x xs where sp: "split_js comma header = x # xs"
    using split_js_not_Nil [of comma header] by (cases "split_js comma header") auto
  have join: "header = x @ concat (map ((#) comma) xs)"
    using split_js_join [OF sp] .
  have x: "\<not> first_party x" and xs: "\<forall>cur \<in> set xs. \<not> first_party cur"
    using assms(1) sp by simp_all
  have first: "parse_step ([], []) x = Inr ([], x)"
    using x by (simp add: parse_step_third_party)
  have parse: "parseBaggageString header = Inr ([], header)"
  proof (cases "x = []")
    case True
    have "xs = []"
    proof (rule ccontr)
      assume "xs \<noteq> []"
      then obtain y ys where "xs = y # ys" by (cases xs) auto
      with join True have "header \<noteq> []" and "hd header = comma" by simp_all
      with assms(2) show False by simp
    qed
    with True join first sp show ?thesis by (simp add: parseBaggageString_def)
  next
    case False
    have "reduce_js parse_step ([], x) xs = Inr ([], x @ concat (map ((#) comma) xs))"
      using xs False by (rule reduce_third_party)
    with first sp join show ?thesis by (simp add: parseBaggageString_def)
  qed
  moreover have "serializeBaggage ([], header) = Inr header"
    by (simp add: serializeBaggage_def object_keys_def)
  ultimately show ?thesis by simp
qed

lemmas eval_defs = js_def comma_def equals_def dash_def percent_def parseBaggageString_def
  parse_step_def to_str_def SENTRY_BAGGAGE_KEY_PREFIX_REGEX_test_def obj_set_def object_keys_def
  array_index_def is_digit_def hexval_def octet_count_def

text \<open>The theorem at a header with four third-party segments, one of them empty and one
  without \<open>=\<close>.\<close>

theorem parse_serialize_third_party_witness:
  "parseBaggageString (js ''other=xyz,k=v=w,,flag'') = Inr ([], js ''other=xyz,k=v=w,,flag'')
   \<and> serializeBaggage ([], js ''other=xyz,k=v=w,,flag'') = Inr (js ''other=xyz,k=v=w,,flag'')"
proof -
  have h1: "\<forall>seg \<in> set (split_js comma (js ''other=xyz,k=v=w,,flag'')). \<not> first_party seg"
    by (simp add: js_def comma_def equals_def first_party_def segment_key_def to_str_def
        SENTRY_BAGGAGE_KEY_PREFIX_REGEX_test_def)
  have h2: "js ''other=xyz,k=v=w,,flag'' = [] \<or> hd (js ''other=xyz,k=v=w,,flag'') \<noteq> comma"
    by (simp add: js_def comma_def)
  show ?thesis using parse_serialize_third_party [OF h1 h2] .
qed

text \<open>C7 as stated fails at the header \<open>,a=1\<close>: the guard \<open>baggageString === ''\<close> of the
  parser drops the empty segment in front, and the round trip returns \<open>a=1\<close>.\<close>

theorem parse_serialize_leading_comma_counterexample:
  "split_js comma (js '',a=1'') = [[], js ''a=1'']
   \<and> \<not> first_party [] \<and> \<not> first_party (js ''a=1'')
   \<and> parseBaggageString (js '',a=1'') = Inr ([], js ''a=1'')
   \<and> serializeBaggage ([], js ''a=1'') = Inr (js ''a=1'')
   \<and> js ''a=1'' \<noteq> js '',a=1''"
  by (simp add: js_def comma_def equals_def parseBaggageString_def parse_step_def to_str_def
      SENTRY_BAGGAGE_KEY_PREFIX_REGEX_test_def first_party_def segment_key_def
      serializeBaggage_def object_keys_def)

section \<open>\<open>mergeAndSerializeBaggage\<close>\<close>

lemma parse_remainder_segments:
  assumes "parseBaggageString input = Inr b"
  shows "snd b = [] \<or>
         set (split_js comma (snd b)) \<subseteq> {seg \<in> set (split_js comma input). \<not> first_party seg}"
proof -
  let ?T = "{seg \<in> set (split_js comma input). \<not> first_party seg}"
  let ?P = "\<lambda>acc :: baggage. snd acc = [] \<or> set (split_js comma (snd acc)) \<subseteq> ?T"
  have "?P b"
  proof (rule reduce_js_invariant [where P = ?P and f = parse_step and a = "([], [])"
          and xs = "split_js comma input"])
    show "reduce_js parse_step ([], []) (split_js comma input) = Inr b"
      using assms by (simp add: parseBaggageString_def)
    show "?P ([], [])" by simp
  next
    fix acc :: baggage and cur acc'
    assume P: "?P acc" and cur: "cur \<in> set (split_js comma input)"
      and step: "parse_step acc cur = Inr acc'"
    show "?P acc'"
    proof (cases "first_party cur")
      case True
      then have "snd acc' = snd acc" using step by (rule parse_step_first_party)
      with P show ?thesis by simp
    next
      case False
      have nc: "comma \<notin> set cur" using cur by (rule split_js_segment)
      have one: "split_js comma cur = [cur]" using nc by (rule split_js_no_sep)
      have new: "snd acc' = (if snd acc = [] then cur else snd acc @ comma # cur)"
        using step False by (auto simp: parse_step_third_party)
      have inT: "cur \<in> ?T" using cur False by simp
      show ?thesis
      proof (cases "snd acc = []")
        case True
        with new one inT show ?thesis by simp
      next
        case ne: False
        with P have "set (split_js comma (snd acc)) \<subseteq> ?T" by simp
        with new ne one inT show ?thesis by (simp add: split_js_append)
      qed
    qed
  qed
  then show ?thesis .
qed

lemma remainder_third_party:
  assumes "parseBaggageString input = Inr b" and "seg \<in> set (split_js comma (snd b))"
  shows "\<not> first_party seg"
proof (cases "snd b = []")
  case True
  with assms(2) show ?thesis by (simp add: not_first_party_Nil)
next
  case False
  with parse_remainder_segments [OF assms(1)] assms(2) show ?thesis by auto
qed




section \<open>The parser at the segments the specification singles out\<close>

text \<open>
  C4 says the value of a segment is everything after its first \<open>=\<close>. The code destructures
  \<open>curr.split('=')\<close>, which cuts at every \<open>=\<close>, and keeps the first two pieces: for
  \<open>sentry-a=b=c\<close> the value stored is \<open>b\<close>, not \<open>b=c\<close>.
\<close>

theorem parse_second_equals_truncates:
  "parseBaggageString (js ''sentry-a=b=c'') = Inr ([(js ''a'', js ''b'')], [])"
  by (simp add: eval_defs)

text \<open>
  C5 says a segment without \<open>=\<close> is never stored into the items. For \<open>sentry-foo\<close> the key
  passes the prefix test, \<open>val\<close> is \<open>undefined\<close>, and the code stores \<open>foo\<close> with the value
  \<open>decodeURIComponent(undefined)\<close>, the string \<open>undefined\<close>; the remainder stays empty.
\<close>

theorem parse_missing_equals_first_party:
  "parseBaggageString (js ''sentry-foo'') = Inr ([(js ''foo'', js ''undefined'')], [])"
  by (simp add: eval_defs)

text \<open>
  C8 says the items hold only keys that the input carried behind the prefix. For
  \<open>sentry-foo-bar=1\<close> the code takes \<open>key.split('-')[1]\<close> and stores the key \<open>foo\<close>, which
  the input does not carry: its key behind the prefix is \<open>foo-bar\<close>.
\<close>

theorem parse_dashed_key_truncated:
  "parseBaggageString (js ''sentry-foo-bar=1'') = Inr ([(js ''foo'', js ''1'')], [])"
  by (simp add: eval_defs)

section \<open>\<open>parseBaggageString\<close>: first-party entries\<close>

lemma map_of_obj_overwrite:
  "map_of (obj_overwrite key val obj) k =
     (if k = key \<and> key \<in> fst ` set obj then Some val else map_of obj k)"
  by (induction key val obj rule: obj_overwrite.induct) force+

lemma map_of_obj_insert_index:
  "key \<notin> fst ` set obj \<Longrightarrow>
     map_of (obj_insert_index i key val obj) k = (if k = key then Some val else map_of obj k)"
  by (induction i key val obj rule: obj_insert_index.induct) (auto split: option.splits)

lemma map_of_obj_set: "map_of (obj_set obj key val) = (map_of obj)(key \<mapsto> val)"
proof
  fix k
  show "map_of (obj_set obj key val) k = ((map_of obj)(key \<mapsto> val)) k"
  proof (cases "key \<in> set (object_keys obj)")
    case True
    then show ?thesis by (simp add: obj_set_def object_keys_def map_of_obj_overwrite)
  next
    case False
    then have nk: "key \<notin> fst ` set obj" by (simp add: object_keys_def)
    then have none: "map_of obj key = None" by (simp add: map_of_eq_None_iff)
    show ?thesis
    proof (cases "array_index key")
      case None
      with False none show ?thesis
        by (simp add: obj_set_def map_add_def split: option.splits)
    next
      case (Some i)
      with False show ?thesis
        by (simp add: obj_set_def map_of_obj_insert_index [OF nk])
    qed
  qed
qed

lemma obj_get_obj_set:
  "obj_get (obj_set obj key val) k = (if k = key then Some val else obj_get obj k)"
  by (simp add: obj_get_def map_of_obj_set)

lemma split_js_two:
  "sep \<notin> set a \<Longrightarrow> sep \<notin> set b \<Longrightarrow> split_js sep (a @ sep # b) = [a, b]"
  by (simp add: split_js_append split_js_no_sep)

lemma prefix_no_equals: "equals \<notin> set SENTRY_BAGGAGE_KEY_PREFIX"
  by (simp add: SENTRY_BAGGAGE_KEY_PREFIX_def js_def equals_def)

lemma prefix_split_dash: "SENTRY_BAGGAGE_KEY_PREFIX = js ''sentry'' @ [dash]"
  by (simp add: SENTRY_BAGGAGE_KEY_PREFIX_def js_def dash_def)

lemma sentry_no_dash: "dash \<notin> set (js ''sentry'')"
  by (simp add: js_def dash_def)

lemma prefix_test: "SENTRY_BAGGAGE_KEY_PREFIX_REGEX_test (SENTRY_BAGGAGE_KEY_PREFIX @ k)"
  by (simp add: SENTRY_BAGGAGE_KEY_PREFIX_REGEX_test_def SENTRY_BAGGAGE_KEY_PREFIX_def)

lemma entry_segment:
  assumes "equals \<notin> set k" and "equals \<notin> set v" and "dash \<notin> set k"
  shows "segment_key (SENTRY_BAGGAGE_KEY_PREFIX @ k @ equals # v) = SENTRY_BAGGAGE_KEY_PREFIX @ k"
    and "to_str (nth_js (split_js equals (SENTRY_BAGGAGE_KEY_PREFIX @ k @ equals # v)) (Suc 0)) = v"
    and "first_party (SENTRY_BAGGAGE_KEY_PREFIX @ k @ equals # v)"
    and "stored_key (SENTRY_BAGGAGE_KEY_PREFIX @ k @ equals # v) = decodeURIComponent k"
proof -
  let ?seg = "SENTRY_BAGGAGE_KEY_PREFIX @ k @ equals # v"
  have "split_js equals ((SENTRY_BAGGAGE_KEY_PREFIX @ k) @ equals # v)
          = [SENTRY_BAGGAGE_KEY_PREFIX @ k, v]"
    using assms prefix_no_equals by (intro split_js_two) simp_all
  then have sp: "split_js equals ?seg = [SENTRY_BAGGAGE_KEY_PREFIX @ k, v]" by simp
  show key: "segment_key ?seg = SENTRY_BAGGAGE_KEY_PREFIX @ k"
    by (simp add: segment_key_def sp to_str_def)
  show "to_str (nth_js (split_js equals ?seg) (Suc 0)) = v"
    by (simp add: sp to_str_def)
  show "first_party ?seg"
    by (simp add: first_party_def key prefix_test)
  have "split_js dash (js ''sentry'' @ dash # k) = [js ''sentry'', k]"
    using assms(3) sentry_no_dash by (intro split_js_two) simp_all
  then have "split_js dash (SENTRY_BAGGAGE_KEY_PREFIX @ k) = [js ''sentry'', k]"
    by (simp add: prefix_split_dash)
  then show "stored_key ?seg = decodeURIComponent k"
    by (simp add: stored_key_def key to_str_def)
qed

lemma parse_step_first_party_stored:
  assumes "first_party cur" and "parse_step acc cur = Inr acc'"
  shows "\<exists>bk dv. stored_key cur = Inr bk
           \<and> decodeURIComponent (to_str (nth_js (split_js equals cur) (Suc 0))) = Inr dv
           \<and> acc' = (obj_set (fst acc) bk dv, snd acc)"
  using assms
  by (auto simp: parse_step_def first_party_def segment_key_def stored_key_def Let_def
      split: sum.splits)

lemma reduce_parse_keeps:
  assumes "reduce_js parse_step acc segs = Inr b"
    and "obj_get (fst acc) k = Some v"
    and "\<forall>seg \<in> set segs. first_party seg \<longrightarrow> stored_key seg \<noteq> Inr k"
  shows "obj_get (fst b) k = Some v"
proof (rule reduce_js_invariant [where P = "\<lambda>a. obj_get (fst a) k = Some v", OF assms(1,2)])
  fix a cur a'
  assume P: "obj_get (fst a) k = Some v" and cur: "cur \<in> set segs"
    and step: "parse_step a cur = Inr a'"
  show "obj_get (fst a') k = Some v"
  proof (cases "first_party cur")
    case True
    from parse_step_first_party_stored [OF True step] obtain bk dv
      where bk: "stored_key cur = Inr bk" and a': "a' = (obj_set (fst a) bk dv, snd a)"
      by blast
    from assms(3) cur True bk have "bk \<noteq> k" by auto
    with a' P show ?thesis by (simp add: obj_get_obj_set)
  next
    case False
    with step have "fst a' = fst a" by (auto simp: parse_step_third_party)
    with P show ?thesis by simp
  qed
qed

text \<open>
  C2, as the code has it. Take a header that \<open>parseBaggageString\<close> accepts and one of its
  comma-separated segments of the form \<open>sentry-<k>=<v>\<close>, where the raw key begins with
  \<open>sentry-\<close>, \<open>k\<close> contains neither \<open>-\<close> nor \<open>=\<close> and \<open>v\<close> contains no \<open>=\<close>. Then \<open>k\<close> and
  \<open>v\<close> percent-decode, and the items hold the decoded value under the decoded key, provided
  no later first-party segment is stored under that key: the last occurrence wins.
\<close>

theorem parse_first_party_stored:
  assumes "parseBaggageString input = Inr b"
    and "split_js comma input = pre @ (SENTRY_BAGGAGE_KEY_PREFIX @ k @ equals # v) # post"
    and "equals \<notin> set k" and "dash \<notin> set k" and "equals \<notin> set v"
    and "\<forall>seg \<in> set post. first_party seg \<longrightarrow> stored_key seg \<noteq> decodeURIComponent k"
  shows "\<exists>k' v'. decodeURIComponent k = Inr k' \<and> decodeURIComponent v = Inr v'
           \<and> getBaggageValue b k' = Str v'"
proof -
  let ?seg = "SENTRY_BAGGAGE_KEY_PREFIX @ k @ equals # v"
  note seg = entry_segment [OF assms(3) assms(5) assms(4)]
  have "reduce_js parse_step ([], []) (pre @ ?seg # post) = Inr b"
    using assms(1) unfolding parseBaggageString_def assms(2) .
  then have red: "(case reduce_js parse_step ([], []) pre of Inl e \<Rightarrow> Inl e
      | Inr a \<Rightarrow> reduce_js parse_step a (?seg # post)) = Inr b"
    by (simp only: reduce_js_append)
  obtain b1 where b1: "reduce_js parse_step ([], []) pre = Inr b1"
    and rest: "reduce_js parse_step b1 (?seg # post) = Inr b"
  proof (cases "reduce_js parse_step ([], []) pre")
    case (Inl e)
    with red show ?thesis by simp
  next
    case (Inr a)
    with red that show ?thesis by simp
  qed
  obtain b2 where b2: "parse_step b1 ?seg = Inr b2"
    and post: "reduce_js parse_step b2 post = Inr b"
  proof (cases "parse_step b1 ?seg")
    case (Inl e)
    with rest show ?thesis by simp
  next
    case (Inr a)
    with rest that show ?thesis by simp
  qed
  from parse_step_first_party_stored [OF seg(3) b2] obtain k' v'
    where sk: "stored_key ?seg = Inr k'"
      and dv: "decodeURIComponent (to_str (nth_js (split_js equals ?seg) (Suc 0))) = Inr v'"
      and b2': "b2 = (obj_set (fst b1) k' v', snd b1)"
    by blast
  have k': "decodeURIComponent k = Inr k'"
    using sk unfolding seg(4) .
  have v': "decodeURIComponent v = Inr v'"
    using dv unfolding seg(2) .
  have here: "obj_get (fst b2) k' = Some v'"
    unfolding b2' by (simp add: obj_get_obj_set)
  have later: "\<forall>seg \<in> set post. first_party seg \<longrightarrow> stored_key seg \<noteq> Inr k'"
    using assms(6) unfolding k' .
  have "obj_get (fst b) k' = Some v'"
    using post here later by (rule reduce_parse_keeps)
  with k' v' show ?thesis by (simp add: getBaggageValue_def)
qed

text \<open>The theorem at a header where the key \<open>a\<close> occurs twice: the later value \<open>2\<close> is
  the one stored.\<close>

theorem parse_first_party_stored_witness:
  "parseBaggageString (js ''sentry-a=1,other=x,sentry-a=2,sentry-b%20c=d%3De'')
     = Inr ([(js ''a'', js ''2''), (js ''b c'', js ''d=e'')], js ''other=x'')
   \<and> getBaggageValue ([(js ''a'', js ''2''), (js ''b c'', js ''d=e'')], js ''other=x'') (js ''a'')
       = Str (js ''2'')"
  (is "?P \<and> ?G")
proof
  let ?b = "([(js ''a'', js ''2''), (js ''b c'', js ''d=e'')], js ''other=x'')"
  show p: ?P
    by (simp add: eval_defs)
  have sp: "split_js comma (js ''sentry-a=1,other=x,sentry-a=2,sentry-b%20c=d%3De'')
      = [js ''sentry-a=1'', js ''other=x'']
        @ (SENTRY_BAGGAGE_KEY_PREFIX @ js ''a'' @ equals # js ''2'') # [js ''sentry-b%20c=d%3De'']"
    by (simp add: js_def comma_def equals_def SENTRY_BAGGAGE_KEY_PREFIX_def)
  have h3: "equals \<notin> set (js ''a'')" and h4: "dash \<notin> set (js ''a'')"
    and h5: "equals \<notin> set (js ''2'')"
    by (simp_all add: js_def equals_def dash_def)
  have da: "decodeURIComponent (js ''a'') = Inr (js ''a'')"
    and d2: "decodeURIComponent (js ''2'') = Inr (js ''2'')"
    by (simp_all add: js_def percent_def)
  have h6: "\<forall>seg \<in> set [js ''sentry-b%20c=d%3De''].
      first_party seg \<longrightarrow> stored_key seg \<noteq> decodeURIComponent (js ''a'')"
    by (simp add: stored_key_def segment_key_def eval_defs)
  from parse_first_party_stored [OF p sp h3 h4 h5 h6] obtain k' v'
    where "decodeURIComponent (js ''a'') = Inr k'" and "decodeURIComponent (js ''2'') = Inr v'"
      and g: "getBaggageValue ?b k' = Str v'"
    by blast
  then have "k' = js ''a''" and "v' = js ''2''"
    unfolding da d2 by simp_all
  with g show ?G by simp
qed

text \<open>
  C2 as stated fails twice. \<open>sentry-foo-bar=baz\<close> is stored under \<open>foo\<close>, and nothing is stored
  under \<open>foo-bar\<close>. And the prefix test reads the raw key: the key \<open>%73entry-foo\<close> decodes to
  \<open>sentry-foo\<close>, yet the segment goes to the remainder and nothing is stored.
\<close>

theorem parse_prefix_counterexample:
  "parseBaggageString (js ''sentry-foo-bar=baz'') = Inr ([(js ''foo'', js ''baz'')], [])
   \<and> obj_get [(js ''foo'', js ''baz'')] (js ''foo-bar'') = None
   \<and> decodeURIComponent (js ''%73entry-foo'') = Inr (js ''sentry-foo'')
   \<and> parseBaggageString (js ''%73entry-foo=1'') = Inr ([], js ''%73entry-foo=1'')"
  by (simp add: eval_defs obj_get_def)

section \<open>Round trip of first-party items\<close>

subsection \<open>Escapes of ASCII characters\<close>

lemma hexval_hexdigit: "n < 16 \<Longrightarrow> hexval (hexdigit n) = Some n"
  by (auto simp: hexval_def unat_hexdigit Let_def)

lemma hexdigit_not_dash: "n < 16 \<Longrightarrow> hexdigit n \<noteq> dash"
proof
  assume n: "n < 16" and "hexdigit n = dash"
  then have "unat (hexdigit n) = 45" by (simp add: unat_dash)
  with n show False by (auto simp: unat_hexdigit split: if_splits)
qed

lemma percent_not_dash: "percent \<noteq> dash"
  by (simp add: percent_def dash_def)

lemma encode_unescaped:
  "unescaped c \<Longrightarrow>
     encodeURIComponent (c # cs) =
       (case encodeURIComponent cs of Inl e \<Rightarrow> Inl e | Inr r \<Rightarrow> Inr (c # r))"
  by simp

lemma encode_escaped_ascii:
  assumes "\<not> unescaped c" and "unat c < 128"
  shows "encodeURIComponent (c # cs) =
       (case encodeURIComponent cs of
          Inl e \<Rightarrow> Inl e
        | Inr r \<Rightarrow> Inr (percent # hexdigit (unat c div 16) # hexdigit (unat c mod 16) # r))"
proof -
  have "\<not> is_lead c" and "\<not> is_trail c"
    using assms(2) by (simp_all add: is_lead_def is_trail_def)
  moreover have "escape_octets (utf8_octets (unat c))
      = [percent, hexdigit (unat c div 16), hexdigit (unat c mod 16)]"
    using assms(2) by (simp add: utf8_octets_def escape_octets_def escape_octet_def)
  ultimately show ?thesis using assms(1) by (simp split: sum.splits)
qed

lemma decode_plain:
  "c \<noteq> percent \<Longrightarrow>
     decodeURIComponent (c # cs) =
       (case decodeURIComponent cs of Inl e \<Rightarrow> Inl e | Inr r \<Rightarrow> Inr (c # r))"
  by simp

lemma decode_escaped_ascii:
  assumes "hexval h = Some a" and "hexval l = Some b" and "16 * a + b < 128"
  shows "decodeURIComponent (percent # h # l # rest) =
       (case decodeURIComponent rest of
          Inl e \<Rightarrow> Inl e
        | Inr r \<Rightarrow> Inr (of_nat (16 * a + b) # r))"
  using assms by simp

lemma ascii_roundtrip:
  "ascii s \<Longrightarrow>
     \<exists>e. encodeURIComponent s = Inr e \<and> decodeURIComponent e = Inr s
          \<and> (dash \<notin> set s \<longrightarrow> dash \<notin> set e)"
proof (induction s)
  case Nil
  then show ?case by simp
next
  case (Cons c s)
  from Cons.prems have c: "unat c < 128" and s: "ascii s"
    by (simp_all add: ascii_def)
  from Cons.IH [OF s] obtain e where enc: "encodeURIComponent s = Inr e"
    and dec: "decodeURIComponent e = Inr s" and d: "dash \<notin> set s \<longrightarrow> dash \<notin> set e"
    by blast
  show ?case
  proof (cases "unescaped c")
    case True
    then have np: "c \<noteq> percent" using not_unescaped_percent by auto
    have "encodeURIComponent (c # s) = Inr (c # e)"
      unfolding encode_unescaped [OF True] enc by simp
    moreover have "decodeURIComponent (c # e) = Inr (c # s)"
      unfolding decode_plain [OF np] dec by simp
    moreover have "dash \<notin> set (c # s) \<longrightarrow> dash \<notin> set (c # e)"
      using d by simp
    ultimately show ?thesis by blast
  next
    case False
    let ?hi = "unat c div 16" and ?lo = "unat c mod 16"
    let ?e = "percent # hexdigit ?hi # hexdigit ?lo # e"
    have hi: "?hi < 16" and lo: "?lo < 16"
      using c by simp_all
    have val: "16 * ?hi + ?lo = unat c" by simp
    have lt: "16 * ?hi + ?lo < 128" using c by (simp only: val)
    have same: "(of_nat (unat c) :: jschar) = c" by simp
    have "encodeURIComponent (c # s) = Inr ?e"
      unfolding encode_escaped_ascii [OF False c] enc by simp
    moreover have "decodeURIComponent ?e = Inr (c # s)"
      unfolding decode_escaped_ascii [OF hexval_hexdigit [OF hi] hexval_hexdigit [OF lo] lt] dec
        val same by simp
    moreover have "dash \<notin> set ?e" if "dash \<notin> set (c # s)"
      using that d hexdigit_not_dash [OF hi] hexdigit_not_dash [OF lo] percent_not_dash
      by auto
    ultimately show ?thesis by blast
  qed
qed

subsection \<open>The serialisation without the length check\<close>

lemma naive_step_entry:
  "naive_step baggage prev key = Inr new \<Longrightarrow>
     \<exists>entry. baggage_entry (fst baggage) key = Inr entry
        \<and> new = (if prev = [] then entry else prev @ comma # entry)"
  by (cases "baggage_entry (fst baggage) key") (auto simp: naive_step_def js_comma)

lemma naive_step_length: "naive_step baggage prev key = Inr new \<Longrightarrow> length prev \<le> length new"
  by (drule naive_step_entry) (auto split: if_splits)

lemma naive_reduce_length:
  assumes "reduce_js (naive_step baggage) acc keys = Inr s"
  shows "length acc \<le> length s"
proof (rule reduce_js_invariant [where P = "\<lambda>a. length acc \<le> length a", OF assms])
  show "length acc \<le> length acc" by simp
next
  fix a key a'
  assume "length acc \<le> length a" and "naive_step baggage a key = Inr a'"
  then show "length acc \<le> length a'"
    using naive_step_length [of baggage a key a'] by simp
qed

lemma naive_reduce_serialize:
  assumes "reduce_js (naive_step baggage) acc keys = Inr s"
    and "length s \<le> MAX_BAGGAGE_STRING_LENGTH"
  shows "reduce_js (serialize_step baggage) acc keys = Inr s"
  using assms
proof (induction keys arbitrary: acc)
  case Nil
  then show ?case by simp
next
  case (Cons key keys)
  from Cons.prems(1) obtain a1 where step: "naive_step baggage acc key = Inr a1"
    and rest: "reduce_js (naive_step baggage) a1 keys = Inr s"
    by (cases "naive_step baggage acc key") simp_all
  from naive_step_entry [OF step] obtain entry
    where entry: "baggage_entry (fst baggage) key = Inr entry"
      and a1: "a1 = (if acc = [] then entry else acc @ comma # entry)" by blast
  have "length a1 \<le> MAX_BAGGAGE_STRING_LENGTH"
    using naive_reduce_length [OF rest] Cons.prems(2) by simp
  then have "serialize_step baggage acc key = Inr a1"
    using entry a1 by (simp add: serialize_step_entry)
  moreover have "reduce_js (serialize_step baggage) a1 keys = Inr s"
    using rest Cons.prems(2) by (rule Cons.IH)
  ultimately show ?case by simp
qed

lemma naive_reduce_entries:
  assumes "reduce_js (naive_step baggage) acc keys = Inr s"
  shows "\<exists>es. list_all2 (\<lambda>key e. baggage_entry (fst baggage) key = Inr e) keys es
            \<and> s = join_entries acc es"
  using assms
proof (induction keys arbitrary: acc)
  case Nil
  then show ?case by (simp add: join_entries_def)
next
  case (Cons key keys)
  from Cons.prems obtain a1 where step: "naive_step baggage acc key = Inr a1"
    and rest: "reduce_js (naive_step baggage) a1 keys = Inr s"
    by (cases "naive_step baggage acc key") simp_all
  from naive_step_entry [OF step] obtain entry
    where entry: "baggage_entry (fst baggage) key = Inr entry"
      and a1: "a1 = (if acc = [] then entry else acc @ comma # entry)" by blast
  from Cons.IH [OF rest] obtain es
    where es: "list_all2 (\<lambda>key e. baggage_entry (fst baggage) key = Inr e) keys es"
      and s: "s = join_entries a1 es" by blast
  have "list_all2 (\<lambda>key e. baggage_entry (fst baggage) key = Inr e) (key # keys) (entry # es)"
    using entry es by simp
  moreover have "s = join_entries acc (entry # es)"
    using s a1 by (simp add: join_entries_def)
  ultimately show ?case by blast
qed

lemma split_join_entries:
  assumes "\<forall>e \<in> set es. comma \<notin> set e" and "acc \<noteq> []"
  shows "split_js comma (join_entries acc es) = split_js comma acc @ es"
  using assms
proof (induction es arbitrary: acc)
  case Nil
  then show ?case by (simp add: join_entries_def)
next
  case (Cons e es)
  have "join_entries acc (e # es) = join_entries (acc @ comma # e) es"
    using Cons.prems(2) by (simp add: join_entries_def)
  moreover have "split_js comma (join_entries (acc @ comma # e) es)
      = split_js comma (acc @ comma # e) @ es"
    using Cons.prems(1) by (intro Cons.IH) simp_all
  moreover have "split_js comma (acc @ comma # e) = split_js comma acc @ [e]"
    using Cons.prems(1) by (simp add: split_js_append split_js_no_sep)
  ultimately show ?case by simp
qed

lemma split_join_entries_Nil:
  assumes "\<forall>e \<in> set es. comma \<notin> set e \<and> e \<noteq> []"
  shows "split_js comma (join_entries [] es) = (if es = [] then [[]] else es)"
proof (cases es)
  case Nil
  then show ?thesis by (simp add: join_entries_def)
next
  case (Cons e es')
  with assms have e: "comma \<notin> set e" "e \<noteq> []" and es': "\<forall>x \<in> set es'. comma \<notin> set x"
    by simp_all
  have "join_entries [] es = join_entries e es'"
    using Cons by (simp add: join_entries_def)
  with split_join_entries [OF es' e(2)] e(1) Cons show ?thesis
    by (simp add: split_js_no_sep)
qed

subsection \<open>Parsing the entries back\<close>

lemma parse_step_entry:
  assumes "equals \<notin> set ek" and "equals \<notin> set ev" and "dash \<notin> set ek"
    and "decodeURIComponent ek = Inr k" and "decodeURIComponent ev = Inr v"
  shows "parse_step acc (SENTRY_BAGGAGE_KEY_PREFIX @ ek @ equals # ev)
           = Inr (obj_set (fst acc) k v, snd acc)"
proof -
  let ?seg = "SENTRY_BAGGAGE_KEY_PREFIX @ ek @ equals # ev"
  note seg = entry_segment [OF assms(1) assms(2) assms(3)]
  have key: "to_str (nth_js (split_js equals ?seg) 0) = SENTRY_BAGGAGE_KEY_PREFIX @ ek"
    using seg(1) by (simp add: segment_key_def)
  have bk: "decodeURIComponent (to_str (nth_js (split_js dash (SENTRY_BAGGAGE_KEY_PREFIX @ ek)) 1))
      = Inr k"
    using seg(4) assms(4) by (simp add: stored_key_def seg(1))
  have dv: "decodeURIComponent (to_str (nth_js (split_js equals ?seg) 1)) = Inr v"
    using seg(2) assms(5) by simp
  show ?thesis
    unfolding parse_step_def Let_def key
    by (simp only: prefix_test if_True bk dv sum.case)
qed

lemma reduce_parse_entries:
  assumes "list_all2 entry_of kvs es"
  shows "reduce_js parse_step (obj, rem) es = Inr (set_all obj kvs, rem)"
  using assms
proof (induction kvs es arbitrary: obj rule: list_all2_induct)
  case Nil
  then show ?case by (simp add: set_all_def)
next
  case (Cons kv kvs e es)
  from Cons.hyps(1) obtain ek ev where e: "e = SENTRY_BAGGAGE_KEY_PREFIX @ ek @ equals # ev"
    and c: "equals \<notin> set ek" "equals \<notin> set ev" "dash \<notin> set ek"
    and d: "decodeURIComponent ek = Inr (fst kv)" "decodeURIComponent ev = Inr (snd kv)"
    by (auto simp: entry_of_def)
  have "parse_step (obj, rem) e = Inr (obj_set obj (fst kv) (snd kv), rem)"
    using parse_step_entry [OF c d, of "(obj, rem)"] e by simp
  moreover have "reduce_js parse_step (obj_set obj (fst kv) (snd kv), rem) es
      = Inr (set_all (obj_set obj (fst kv) (snd kv)) kvs, rem)"
    by (rule Cons.IH)
  ultimately show ?case by (simp add: set_all_def)
qed

lemma map_of_set_all:
  "distinct (map fst kvs) \<Longrightarrow> map_of (set_all obj kvs) = map_of obj ++ map_of kvs"
proof (induction kvs arbitrary: obj)
  case Nil
  then show ?case by (simp add: set_all_def)
next
  case (Cons kv kvs)
  from Cons.prems have nk: "fst kv \<notin> dom (map_of kvs)" and dist: "distinct (map fst kvs)"
    by (simp_all add: dom_map_of_conv_image_fst)
  have "map_of (set_all obj (kv # kvs)) = map_of (set_all (obj_set obj (fst kv) (snd kv)) kvs)"
    by (simp add: set_all_def)
  also have "\<dots> = map_of (obj_set obj (fst kv) (snd kv)) ++ map_of kvs"
    by (rule Cons.IH [OF dist])
  also have "\<dots> = (map_of obj)(fst kv \<mapsto> snd kv) ++ map_of kvs"
    by (simp only: map_of_obj_set)
  also have "\<dots> = (map_of obj ++ map_of kvs)(fst kv \<mapsto> snd kv)"
    using nk by (rule map_add_upd_left)
  also have "\<dots> = map_of obj ++ map_of (kv # kvs)"
    by (cases kv) simp
  finally show ?case .
qed

lemma baggage_entry_ascii:
  assumes "ascii k" and "ascii v" and "dash \<notin> set k" and "obj_get obj k = Some v"
  shows "\<exists>e. baggage_entry obj k = Inr e \<and> entry_of (k, v) e \<and> e \<noteq> []"
proof -
  from ascii_roundtrip [OF assms(1)] assms(3) obtain ek
    where ek: "encodeURIComponent k = Inr ek" "decodeURIComponent ek = Inr k" "dash \<notin> set ek"
    by blast
  from ascii_roundtrip [OF assms(2)] obtain ev
    where ev: "encodeURIComponent v = Inr ev" "decodeURIComponent ev = Inr v"
    by blast
  let ?e = "SENTRY_BAGGAGE_KEY_PREFIX @ ek @ equals # ev"
  have e: "baggage_entry obj k = Inr ?e"
    using ek(1) ev(1) assms(4) by (simp add: baggage_entry_def to_str_def js_equals)
  have "entry_of (k, v) ?e"
    unfolding entry_of_def
    using ek ev encode_no_equals [OF ek(1)] encode_no_equals [OF ev(1)]
      baggage_entry_no_comma [OF e]
    by auto
  with e show ?thesis by blast
qed

lemma list_all2_right:
  "list_all2 P xs ys \<Longrightarrow> y \<in> set ys \<Longrightarrow> \<exists>x \<in> set xs. P x y"
  by (induction rule: list_all2_induct) auto

text \<open>
  C3, as the code has it. For every object with distinct keys whose keys and values are
  ASCII strings, whose keys contain no \<open>-\<close>, and whose serialisation without the length
  check is at most 8192 long, \<open>serializeBaggage(createBaggage(items))\<close> returns a string,
  \<open>parseBaggageString\<close> of that string returns a baggage, its items are the original mapping
  (as a mapping, whatever the order) and its remainder is empty. Keys and values may
  contain \<open>=\<close> and \<open>,\<close>, and values may contain \<open>-\<close>.
\<close>

theorem roundtrip_first_party:
  assumes "distinct (map fst items)"
    and "\<forall>kv \<in> set items. ascii (fst kv) \<and> ascii (snd kv) \<and> dash \<notin> set (fst kv)"
    and "\<forall>s. naive_serialize (createBaggage items []) = Inr s
            \<longrightarrow> length s \<le> MAX_BAGGAGE_STRING_LENGTH"
  shows "\<exists>s b. serializeBaggage (createBaggage items []) = Inr s
           \<and> parseBaggageString s = Inr b
           \<and> map_of (fst b) = map_of items \<and> getThirdPartyBaggage b = []"
proof -
  let ?b = "createBaggage items []"
  have lookup: "obj_get items (fst kv) = Some (snd kv)" if "kv \<in> set items" for kv
    using map_of_is_SomeI [OF assms(1), of "fst kv" "snd kv"] that by (simp add: obj_get_def)
  have entry: "\<exists>e. baggage_entry items (fst kv) = Inr e \<and> entry_of kv e \<and> e \<noteq> []"
    if "kv \<in> set items" for kv
    using baggage_entry_ascii [of "fst kv" "snd kv" items] assms(2) lookup [OF that] that
    by simp
  have "\<exists>s. naive_serialize ?b = Inr s"
    unfolding naive_serialize_def
  proof (rule reduce_js_total)
    fix prev key
    assume "key \<in> set (object_keys (fst ?b))"
    then obtain kv where "kv \<in> set items" "key = fst kv"
      by (auto simp: createBaggage_def object_keys_def)
    with entry [of kv] show "\<exists>new. naive_step ?b prev key = Inr new"
      by (auto simp: naive_step_def createBaggage_def)
  qed
  then obtain s where naive: "naive_serialize ?b = Inr s" ..
  with assms(3) have len: "length s \<le> MAX_BAGGAGE_STRING_LENGTH" by simp
  have red: "reduce_js (naive_step ?b) [] (map fst items) = Inr s"
    using naive by (simp add: naive_serialize_def createBaggage_def object_keys_def)
  have ser: "serializeBaggage ?b = Inr s"
    using naive_reduce_serialize [OF red len]
    by (simp add: serializeBaggage_def createBaggage_def object_keys_def)
  from naive_reduce_entries [OF red] obtain es
    where es: "list_all2 (\<lambda>key e. baggage_entry items key = Inr e) (map fst items) es"
      and s: "s = join_entries [] es"
    by (auto simp: createBaggage_def)
  have rel: "list_all2 (\<lambda>kv e. entry_of kv e \<and> e \<noteq> []) items es"
  proof -
    have "list_all2 (\<lambda>kv e. baggage_entry items (fst kv) = Inr e) items es"
      using es by (simp add: list_all2_map1)
    then show ?thesis
    proof (rule list.rel_mono_strong)
      fix kv e
      assume "kv \<in> set items" and "baggage_entry items (fst kv) = Inr e"
      with entry [of kv] show "entry_of kv e \<and> e \<noteq> []" by auto
    qed
  qed
  then have ents: "list_all2 entry_of items es"
    by (rule list_all2_mono) simp
  have good: "\<forall>e \<in> set es. comma \<notin> set e \<and> e \<noteq> []"
  proof
    fix e assume "e \<in> set es"
    with rel obtain kv where "entry_of kv e \<and> e \<noteq> []"
      by (blast dest: list_all2_right)
    then show "comma \<notin> set e \<and> e \<noteq> []" by (auto simp: entry_of_def)
  qed
  have split: "split_js comma s = (if es = [] then [[]] else es)"
    using split_join_entries_Nil [OF good] s by simp
  have parse: "parseBaggageString s = Inr (set_all [] items, [])"
  proof (cases "es = []")
    case True
    with ents have "items = []" by simp
    with True split show ?thesis
      by (simp add: parseBaggageString_def set_all_def parse_step_third_party not_first_party_Nil)
  next
    case False
    with split reduce_parse_entries [OF ents, of "[]" "[]"] show ?thesis
      by (simp add: parseBaggageString_def)
  qed
  have "map_of (set_all [] items) = map_of items"
    using map_of_set_all [OF assms(1), of "[]"] by simp
  with ser parse show ?thesis by (simp add: getThirdPartyBaggage_def)
qed

text \<open>The theorem at the items \<open>{"a b": "x=y,z", k: "v-w"}\<close>.\<close>

theorem roundtrip_first_party_witness:
  "\<exists>s b. serializeBaggage (createBaggage [(js ''a b'', js ''x=y,z''), (js ''k'', js ''v-w'')] []) = Inr s
     \<and> parseBaggageString s = Inr b
     \<and> map_of (fst b) = map_of [(js ''a b'', js ''x=y,z''), (js ''k'', js ''v-w'')]
     \<and> getThirdPartyBaggage b = []"
proof (rule roundtrip_first_party)
  show "distinct (map fst [(js ''a b'', js ''x=y,z''), (js ''k'', js ''v-w'')])"
    by (simp add: js_def)
  show "\<forall>kv \<in> set [(js ''a b'', js ''x=y,z''), (js ''k'', js ''v-w'')].
      ascii (fst kv) \<and> ascii (snd kv) \<and> dash \<notin> set (fst kv)"
    by (simp add: ascii_def js_def dash_def)
  have "naive_serialize (createBaggage [(js ''a b'', js ''x=y,z''), (js ''k'', js ''v-w'')] [])
      = Inr (js ''sentry-a%20b=x%3Dy%2Cz,sentry-k=v-w'')"
    by (simp add: naive_serialize_def naive_step_def baggage_entry_def createBaggage_def
        object_keys_def obj_get_def to_str_def SENTRY_BAGGAGE_KEY_PREFIX_def js_def unescaped_def
        is_lead_def is_trail_def utf8_octets_def escape_octets_def escape_octet_def hexdigit_def
        percent_def)
  then show "\<forall>s. naive_serialize (createBaggage [(js ''a b'', js ''x=y,z''), (js ''k'', js ''v-w'')] [])
      = Inr s \<longrightarrow> length s \<le> MAX_BAGGAGE_STRING_LENGTH"
    by (simp add: MAX_BAGGAGE_STRING_LENGTH_def js_def)
qed

lemma encode_replicate:
  "unescaped c \<Longrightarrow> encodeURIComponent (replicate n c) = Inr (replicate n c)"
  by (induction n) simp_all

text \<open>C3 as stated fails twice. The key \<open>foo-bar\<close> is serialised as \<open>sentry-foo-bar=1\<close> and
  parsed back as \<open>foo\<close>. And an entry that would pass 8192 characters is dropped by the
  serialiser, so the items \<open>{a: "xx...x"}\<close> with 8192 times \<open>x\<close> come back empty.\<close>

theorem roundtrip_counterexample:
  "serializeBaggage (createBaggage [(js ''foo-bar'', js ''1'')] []) = Inr (js ''sentry-foo-bar=1'')
   \<and> parseBaggageString (js ''sentry-foo-bar=1'') = Inr ([(js ''foo'', js ''1'')], [])
   \<and> obj_get [(js ''foo-bar'', js ''1'')] (js ''foo-bar'') = Some (js ''1'')
   \<and> obj_get [(js ''foo'', js ''1'')] (js ''foo-bar'') = None
   \<and> serializeBaggage (createBaggage [(js ''a'', replicate 8192 (of_char CHR ''x''))] []) = Inr []
   \<and> parseBaggageString [] = Inr ([], [])"
proof -
  have x: "unescaped (120 :: jschar)"
    by (simp add: unescaped_def)
  have "serializeBaggage (createBaggage [(js ''a'', replicate 8192 (of_char CHR ''x''))] []) = Inr []"
    by (simp add: serializeBaggage_def createBaggage_def object_keys_def serialize_step_def
        obj_get_def to_str_def encode_replicate [OF x] SENTRY_BAGGAGE_KEY_PREFIX_def
        MAX_BAGGAGE_STRING_LENGTH_def js_def unescaped_def)
  moreover have "serializeBaggage (createBaggage [(js ''foo-bar'', js ''1'')] [])
      = Inr (js ''sentry-foo-bar=1'')"
    by (simp add: serializeBaggage_def createBaggage_def object_keys_def serialize_step_def
        obj_get_def to_str_def SENTRY_BAGGAGE_KEY_PREFIX_def
        MAX_BAGGAGE_STRING_LENGTH_def js_def unescaped_def)
  moreover have "parseBaggageString (js ''sentry-foo-bar=1'') = Inr ([(js ''foo'', js ''1'')], [])"
    by (simp add: eval_defs)
  moreover have "parseBaggageString [] = Inr ([], [])"
    by (simp add: eval_defs)
  moreover have "obj_get [(js ''foo-bar'', js ''1'')] (js ''foo-bar'') = Some (js ''1'')"
    "obj_get [(js ''foo'', js ''1'')] (js ''foo-bar'') = None"
    by (simp_all add: obj_get_def js_def)
  ultimately show ?thesis by simp
qed

section \<open>The correlator keeps operations apart\<close>

lemma le_foldr_max: "x \<in> set ids \<Longrightarrow> x \<le> foldr max ids (0 :: nat)"
  by (induction ids) (auto simp: le_max_iff_disj)

lemma fresh_notin: "fresh ids \<notin> set ids"
proof
  assume "fresh ids \<in> set ids"
  then have "fresh ids \<le> foldr max ids 0" by (rule le_foldr_max)
  then show False by (simp add: fresh_def)
qed

lemma span_attached_append:
  "span_attached ops isp \<Longrightarrow> span_attached (ops @ [root]) isp"
  by (simp add: span_attached_def nth_append)

lemma inv_initial: "correlator_inv initial"
  by (simp add: correlator_inv_def initial_def context_matches_def)

lemma inv_start_operation:
  assumes "correlator_inv st"
    and "traceId root \<notin> set (seen st)" and "spanId root \<notin> set (seen st)"
    and "set (seen st) \<subseteq> set ids" and "traceId root \<in> set ids" and "spanId root \<in> set ids"
    and "context_matches c (operations st @ [root])"
  shows "correlator_inv (start_operation st c root ids)"
proof -
  from assms(1) have d: "distinct (map traceId (operations st))" "distinct (map spanId (operations st))"
    and sub: "traceId ` set (operations st) \<subseteq> set (seen st)"
      "spanId ` set (operations st) \<subseteq> set (seen st)"
    and att: "list_all (span_attached (operations st)) (spans st)"
    by (simp_all add: correlator_inv_def)
  have "traceId root \<notin> traceId ` set (operations st)"
    using sub(1) assms(2) by blast
  moreover have "spanId root \<notin> spanId ` set (operations st)"
    using sub(2) assms(3) by blast
  moreover have "list_all (span_attached (operations st @ [root])) (spans st)"
    using att by (simp add: list_all_iff span_attached_append)
  moreover have "traceId ` set (operations st) \<subseteq> set ids" "spanId ` set (operations st) \<subseteq> set ids"
    using sub assms(4) by blast+
  ultimately show ?thesis
    using d assms(5,6,7) by (simp add: correlator_inv_def start_operation_def)
qed

lemma inv_add_span:
  assumes "correlator_inv st" and "operations st \<noteq> []"
    and "traceId (last (operations st)) = t" and "spanId (last (operations st)) = r"
  shows "correlator_inv (add_span st t r)"
proof -
  have "span_attached (operations st)
          (length (operations st) - 1,
           \<lparr>traceId = t, spanId = fresh (seen st), parentSpanId = Some r, operationKind = Child\<rparr>)"
    using assms(2,3,4) by (simp add: span_attached_def last_conv_nth)
  with assms(1) show ?thesis
    by (auto simp: correlator_inv_def add_span_def Let_def)
qed

lemma inv_step: "correlator_inv st \<Longrightarrow> correlator_inv (step st ev)"
proof (cases ev)
  case (InitialLoad t p)
  assume inv: "correlator_inv st"
  show ?thesis
  proof (cases "ctx st")
    case NoContext
    let ?s = "fresh (t # p # seen st)"
    let ?root = "\<lparr>traceId = t, spanId = ?s, parentSpanId = Some p, operationKind = Pageload\<rparr>"
    from inv NoContext have empty: "operations st = []"
      by (simp add: correlator_inv_def context_matches_def)
    have s: "?s \<notin> set (t # p # seen st)" by (rule fresh_notin)
    have "correlator_inv (start_operation st (PageloadContext t ?s) ?root (?s # t # p # seen st))"
      using inv empty s
      by (auto simp: correlator_inv_def start_operation_def context_matches_def span_attached_def
          list_all_iff)
    with InitialLoad NoContext show ?thesis by (simp add: Let_def)
  next
    case (PageloadContext x y)
    with InitialLoad inv show ?thesis by simp
  next
    case (NavigationContext x y)
    with InitialLoad inv show ?thesis by simp
  qed
next
  case NavigationEvent
  assume inv: "correlator_inv st"
  let ?t = "fresh (seen st)"
  let ?s = "fresh (?t # seen st)"
  let ?root = "\<lparr>traceId = ?t, spanId = ?s, parentSpanId = None, operationKind = Navigation\<rparr>"
  have t: "?t \<notin> set (seen st)" by (rule fresh_notin)
  have s: "?s \<notin> set (?t # seen st)" by (rule fresh_notin)
  have new: "correlator_inv (start_operation st (NavigationContext ?t ?s) ?root (?s # ?t # seen st))"
  proof (rule inv_start_operation [OF inv])
    show "traceId ?root \<notin> set (seen st)" using t by simp
    show "spanId ?root \<notin> set (seen st)" using s by simp
    show "set (seen st) \<subseteq> set (?s # ?t # seen st)" by auto
    show "traceId ?root \<in> set (?s # ?t # seen st)" by simp
    show "spanId ?root \<in> set (?s # ?t # seen st)" by simp
    show "context_matches (NavigationContext ?t ?s) (operations st @ [?root])"
      by (simp add: context_matches_def)
  qed
  show ?thesis
  proof (cases "ctx st")
    case NoContext
    with NavigationEvent inv show ?thesis by simp
  next
    case (PageloadContext x y)
    with NavigationEvent new show ?thesis by (simp add: Let_def)
  next
    case (NavigationContext x y)
    with NavigationEvent new show ?thesis by (simp add: Let_def)
  qed
next
  case CreateSpan
  assume inv: "correlator_inv st"
  show ?thesis
  proof (cases "rootOpen st")
    case False
    with CreateSpan inv show ?thesis by simp
  next
    case True
    show ?thesis
    proof (cases "ctx st")
      case NoContext
      with CreateSpan True inv show ?thesis by simp
    next
      case (PageloadContext t r)
      with inv have "operations st \<noteq> []" "traceId (last (operations st)) = t"
        "spanId (last (operations st)) = r"
        by (simp_all add: correlator_inv_def context_matches_def)
      with inv have "correlator_inv (add_span st t r)" by (intro inv_add_span)
      with CreateSpan True PageloadContext show ?thesis by simp
    next
      case (NavigationContext t r)
      with inv have "operations st \<noteq> []" "traceId (last (operations st)) = t"
        "spanId (last (operations st)) = r"
        by (simp_all add: correlator_inv_def context_matches_def)
      with inv have "correlator_inv (add_span st t r)" by (intro inv_add_span)
      with CreateSpan True NavigationContext show ?thesis by simp
    qed
  qed
next
  case RootSpanCompletes
  assume "correlator_inv st"
  with RootSpanCompletes show ?thesis by (simp add: correlator_inv_def)
qed

lemma inv_foldl: "correlator_inv st \<Longrightarrow> correlator_inv (foldl step st evs)"
  by (induction evs arbitrary: st) (simp_all add: inv_step)

lemma inv_run: "correlator_inv (run evs)"
  unfolding run_def by (rule inv_foldl) (rule inv_initial)

text \<open>
  C9, on the model of the correlator. After any sequence of events: a navigation operation
  and a pageload operation never have the same trace id; and every span recorded was
  created under an operation, carries that operation's root span id as its parent span id,
  and the root span id of no other operation.
\<close>

theorem correlator_operations_separate:
  "(\<forall>i < length (operations (run evs)). \<forall>j < length (operations (run evs)).
       operationKind (operations (run evs) ! i) = Navigation
       \<and> operationKind (operations (run evs) ! j) = Pageload
       \<longrightarrow> traceId (operations (run evs) ! i) \<noteq> traceId (operations (run evs) ! j))
   \<and> (\<forall>isp \<in> set (spans (run evs)).
         fst isp < length (operations (run evs))
         \<and> parentSpanId (snd isp) = Some (spanId (operations (run evs) ! fst isp))
         \<and> (\<forall>j < length (operations (run evs)). j \<noteq> fst isp
               \<longrightarrow> parentSpanId (snd isp) \<noteq> Some (spanId (operations (run evs) ! j))))"
proof -
  let ?ops = "operations (run evs)"
  from inv_run [of evs] have dt: "distinct (map traceId ?ops)" and ds: "distinct (map spanId ?ops)"
    and att: "list_all (span_attached ?ops) (spans (run evs))"
    by (simp_all add: correlator_inv_def)
  have "traceId (?ops ! i) \<noteq> traceId (?ops ! j)"
    if "i < length ?ops" "j < length ?ops" "operationKind (?ops ! i) = Navigation"
      "operationKind (?ops ! j) = Pageload" for i j
  proof -
    from that(3,4) have "i \<noteq> j" by auto
    with dt that(1,2) have "map traceId ?ops ! i \<noteq> map traceId ?ops ! j"
      by (simp add: nth_eq_iff_index_eq del: nth_map)
    with that(1,2) show ?thesis by simp
  qed
  moreover have "fst isp < length ?ops
         \<and> parentSpanId (snd isp) = Some (spanId (?ops ! fst isp))
         \<and> (\<forall>j < length ?ops. j \<noteq> fst isp \<longrightarrow> parentSpanId (snd isp) \<noteq> Some (spanId (?ops ! j)))"
    if "isp \<in> set (spans (run evs))" for isp
  proof -
    from att that have a: "fst isp < length ?ops"
      "parentSpanId (snd isp) = Some (spanId (?ops ! fst isp))"
      by (simp_all add: list_all_iff span_attached_def)
    have "spanId (?ops ! fst isp) \<noteq> spanId (?ops ! j)" if "j < length ?ops" "j \<noteq> fst isp" for j
    proof -
      from ds a(1) that have "map spanId ?ops ! fst isp \<noteq> map spanId ?ops ! j"
        by (simp add: nth_eq_iff_index_eq del: nth_map)
      with a(1) that(1) show ?thesis by simp
    qed
    with a show ?thesis by simp
  qed
  ultimately show ?thesis by blast
qed

lemmas run_defs = run_def initial_def fresh_def start_operation_def add_span_def Let_def

text \<open>The theorem at the scenario of the specification: a page load with the discovered
  trace id 100 and parent span id 7, a span, a navigation, a span.\<close>

theorem correlator_operations_separate_witness:
  "traceId (operations (run [InitialLoad 100 7, CreateSpan, NavigationEvent, CreateSpan]) ! 1)
     \<noteq> traceId (operations (run [InitialLoad 100 7, CreateSpan, NavigationEvent, CreateSpan]) ! 0)
   \<and> parentSpanId (snd (spans (run [InitialLoad 100 7, CreateSpan, NavigationEvent, CreateSpan]) ! 1))
     = Some (spanId (operations (run [InitialLoad 100 7, CreateSpan, NavigationEvent, CreateSpan]) ! 1))
   \<and> parentSpanId (snd (spans (run [InitialLoad 100 7, CreateSpan, NavigationEvent, CreateSpan]) ! 1))
     \<noteq> Some (spanId (operations (run [InitialLoad 100 7, CreateSpan, NavigationEvent, CreateSpan]) ! 0))"
proof -
  let ?evs = "[InitialLoad 100 7, CreateSpan, NavigationEvent, CreateSpan]"
  let ?ops = "operations (run ?evs)"
  have ops: "?ops
     = [\<lparr>traceId = 100, spanId = 101, parentSpanId = Some 7, operationKind = Pageload\<rparr>,
        \<lparr>traceId = 103, spanId = 104, parentSpanId = None, operationKind = Navigation\<rparr>]"
    and sps: "spans (run ?evs)
     = [(0, \<lparr>traceId = 100, spanId = 102, parentSpanId = Some 101, operationKind = Child\<rparr>),
        (1, \<lparr>traceId = 103, spanId = 105, parentSpanId = Some 104, operationKind = Child\<rparr>)]"
    by (simp_all add: run_defs)
  have len: "1 < length ?ops" "0 < length ?ops"
    and kinds: "operationKind (?ops ! 1) = Navigation \<and> operationKind (?ops ! 0) = Pageload"
    and mem: "spans (run ?evs) ! 1 \<in> set (spans (run ?evs))"
    and own: "fst (spans (run ?evs) ! 1) = 1"
    unfolding ops sps by simp_all
  note sep = correlator_operations_separate [of ?evs]
  from sep len kinds have "traceId (?ops ! 1) \<noteq> traceId (?ops ! 0)"
    by blast
  moreover from sep mem
  have sp: "parentSpanId (snd (spans (run ?evs) ! 1))
              = Some (spanId (?ops ! fst (spans (run ?evs) ! 1)))
      \<and> (\<forall>j < length ?ops. j \<noteq> fst (spans (run ?evs) ! 1)
            \<longrightarrow> parentSpanId (snd (spans (run ?evs) ! 1)) \<noteq> Some (spanId (?ops ! j)))"
    by blast
  then have "parentSpanId (snd (spans (run ?evs) ! 1)) = Some (spanId (?ops ! 1))"
    unfolding own by simp
  moreover from sp len(2) have "parentSpanId (snd (spans (run ?evs) ! 1)) \<noteq> Some (spanId (?ops ! 0))"
    unfolding own by auto
  ultimately show ?thesis by simp
qed

end
